theory Spec2Isabelle
  imports Complex_Main
begin

section \<open>Strings\<close>

text \<open>
  A Python \<open>str\<close> is modelled as a \<^typ>\<open>string\<close>, each \<^typ>\<open>char\<close> standing for the code
  point of the same number (0 to 255).  Within that range the character classes of
  \<open>str.isspace\<close>, of \<open>str.strip\<close> and of the \<open>re\<close> module are the ones below.
\<close>

definition newline :: char where
  "newline = CHR 0x0A"

definition is_space :: "char \<Rightarrow> bool" where
  "is_space c = (let n = (of_char c :: nat)
                 in (9 \<le> n \<and> n \<le> 13) \<or> (28 \<le> n \<and> n \<le> 32) \<or> n = 133 \<or> n = 160)"

definition is_digit :: "char \<Rightarrow> bool" where
  "is_digit c = (let n = (of_char c :: nat) in 48 \<le> n \<and> n \<le> 57)"

definition is_upper :: "char \<Rightarrow> bool" where
  "is_upper c = (let n = (of_char c :: nat) in 65 \<le> n \<and> n \<le> 90)"

definition is_lower :: "char \<Rightarrow> bool" where
  "is_lower c = (let n = (of_char c :: nat) in 97 \<le> n \<and> n \<le> 122)"

definition is_alpha :: "char \<Rightarrow> bool" where
  "is_alpha c = (is_upper c \<or> is_lower c)"

text \<open>The code point of \<open>c.lower()\<close>.\<close>

definition lower_code :: "char \<Rightarrow> nat" where
  "lower_code c = (if is_upper c then of_char c + 32 else of_char c)"

text \<open>\<open>s.startswith(p)\<close> and \<open>p in s\<close>.\<close>

definition startswith :: "string \<Rightarrow> string \<Rightarrow> bool" where
  "startswith s p = (take (length p) s = p)"

fun contains :: "string \<Rightarrow> string \<Rightarrow> bool" where
  "contains [] p = (p = [])"
| "contains (x # xs) p = (startswith (x # xs) p \<or> contains xs p)"

text \<open>\<open>s.split(c)\<close> for a one-character separator, and \<open>sep.join(parts)\<close>.\<close>

fun split_on :: "char \<Rightarrow> string \<Rightarrow> string list" where
  "split_on c [] = [[]]"
| "split_on c (x # xs) =
     (if x = c then [] # split_on c xs
      else (case split_on c xs of [] \<Rightarrow> [[x]] | l # ls \<Rightarrow> (x # l) # ls))"

fun join_with :: "string \<Rightarrow> string list \<Rightarrow> string" where
  "join_with sep [] = []"
| "join_with sep [l] = l"
| "join_with sep (l # l' # ls) = l @ sep @ join_with sep (l' # ls)"

text \<open>\<open>s.strip()\<close> and \<open>s.replace(a, b)\<close> for one-character \<open>a\<close>.\<close>

definition strip :: "string \<Rightarrow> string" where
  "strip s = rev (dropWhile is_space (rev (dropWhile is_space s)))"

definition replace_char :: "char \<Rightarrow> string \<Rightarrow> string \<Rightarrow> string" where
  "replace_char a b s = concat (map (\<lambda>c. if c = a then b else [c]) s)"

section \<open>Regular expressions\<close>

text \<open>
  The patterns of the program use character classes, sequences, alternatives, greedy and
  lazy repetition, capture groups (none of them nested or repeated) and the anchors
  \<open>^\<close> and \<open>$\<close>.  \<open>run\<close> is a backtracking matcher: from a state (the rest of the
  subject, the groups captured so far) it lists the states after a match, in the order
  in which the \<open>re\<close> module tries them.  A repetition only continues after an iteration
  that consumed a character (no repeated expression of the program matches the empty
  string).
\<close>

datatype regex =
    Cls "char \<Rightarrow> bool"
  | Eps
  | Seq regex regex
  | Alt regex regex
  | Star regex
  | LStar regex
  | Grp regex
  | Bol
  | Eol

type_synonym mstate = "string \<times> string list"

fun iter :: "(mstate \<Rightarrow> mstate list) \<Rightarrow> nat \<Rightarrow> mstate \<Rightarrow> mstate list" where
  "iter f 0 st = [st]"
| "iter f (Suc k) st =
     concat (map (iter f k) (filter (\<lambda>st'. length (fst st') < length (fst st)) (f st))) @ [st]"

fun liter :: "(mstate \<Rightarrow> mstate list) \<Rightarrow> nat \<Rightarrow> mstate \<Rightarrow> mstate list" where
  "liter f 0 st = [st]"
| "liter f (Suc k) st =
     st # concat (map (liter f k) (filter (\<lambda>st'. length (fst st') < length (fst st)) (f st)))"

text \<open>\<open>n\<close> is the length of the whole subject, which \<open>^\<close> needs.\<close>

primrec run :: "nat \<Rightarrow> regex \<Rightarrow> mstate \<Rightarrow> mstate list" where
  "run n (Cls p) = (\<lambda>st. case fst st of [] \<Rightarrow> [] | x # t \<Rightarrow> if p x then [(t, snd st)] else [])"
| "run n Eps = (\<lambda>st. [st])"
| "run n (Seq a b) = (\<lambda>st. concat (map (run n b) (run n a st)))"
| "run n (Alt a b) = (\<lambda>st. run n a st @ run n b st)"
| "run n (Star a) = (\<lambda>st. iter (run n a) (length (fst st)) st)"
| "run n (LStar a) = (\<lambda>st. liter (run n a) (length (fst st)) st)"
| "run n (Grp a) =
     (\<lambda>st. map (\<lambda>st'. (fst st', snd st' @ [take (length (fst st) - length (fst st')) (fst st)]))
              (run n a st))"
| "run n Bol = (\<lambda>st. if length (fst st) = n then [st] else [])"
| "run n Eol = (\<lambda>st. if fst st = [] \<or> fst st = [newline] then [st] else [])"

text \<open>Derived forms: \<open>r+\<close>, \<open>r+?\<close>, \<open>r?\<close>, \<open>r{k}\<close>, literals with and without
  \<open>re.IGNORECASE\<close>, and a sequence of several expressions.\<close>

definition Plus :: "regex \<Rightarrow> regex" where
  "Plus r = Seq r (Star r)"

definition LPlus :: "regex \<Rightarrow> regex" where
  "LPlus r = Seq r (LStar r)"

definition Opt :: "regex \<Rightarrow> regex" where
  "Opt r = Alt r Eps"

fun Times :: "nat \<Rightarrow> regex \<Rightarrow> regex" where
  "Times 0 r = Eps"
| "Times (Suc k) r = Seq r (Times k r)"

definition Chr :: "char \<Rightarrow> regex" where
  "Chr c = Cls (\<lambda>x. x = c)"

definition ChrI :: "char \<Rightarrow> regex" where
  "ChrI c = Cls (\<lambda>x. lower_code x = lower_code c)"

fun Lit :: "string \<Rightarrow> regex" where
  "Lit [] = Eps"
| "Lit (c # cs) = Seq (Chr c) (Lit cs)"

fun LitI :: "string \<Rightarrow> regex" where
  "LitI [] = Eps"
| "LitI (c # cs) = Seq (ChrI c) (LitI cs)"

fun Seqs :: "regex list \<Rightarrow> regex" where
  "Seqs [] = Eps"
| "Seqs (r # rs) = Seq r (Seqs rs)"

fun Alts :: "regex list \<Rightarrow> regex" where
  "Alts [] = Cls (\<lambda>_. False)"
| "Alts [r] = r"
| "Alts (r # r' # rs) = Alt r (Alts (r' # rs))"

text \<open>\<open>re.match\<close>, \<open>re.search\<close>, \<open>re.findall\<close> and \<open>re.sub\<close>.  A match is given by the
  rest of the subject after it and its groups.  \<open>findall_at\<close> and \<open>sub_at\<close> pass over
  an empty match (the patterns they are used with match no empty string).\<close>

definition first_match :: "nat \<Rightarrow> regex \<Rightarrow> string \<Rightarrow> mstate option" where
  "first_match n r t = (case run n r (t, []) of [] \<Rightarrow> None | st # _ \<Rightarrow> Some st)"

definition re_match :: "regex \<Rightarrow> string \<Rightarrow> string list option" where
  "re_match r s = map_option snd (first_match (length s) r s)"

fun search_at :: "nat \<Rightarrow> regex \<Rightarrow> string \<Rightarrow> mstate option" where
  "search_at n r [] = first_match n r []"
| "search_at n r (x # t) =
     (case first_match n r (x # t) of Some st \<Rightarrow> Some st | None \<Rightarrow> search_at n r t)"

definition re_search :: "regex \<Rightarrow> string \<Rightarrow> string list option" where
  "re_search r s = map_option snd (search_at (length s) r s)"

function findall_at :: "nat \<Rightarrow> regex \<Rightarrow> string \<Rightarrow> string list list" where
  "findall_at n r [] = []"
| "findall_at n r (x # t) =
     (case first_match n r (x # t) of
        None \<Rightarrow> findall_at n r t
      | Some (t', g) \<Rightarrow>
          if length t' < length (x # t) then g # findall_at n r t' else findall_at n r t)"
  by pat_completeness auto
termination
  by (relation "measure (\<lambda>(n, r, t). length t)") auto

definition re_findall :: "regex \<Rightarrow> string \<Rightarrow> string list list" where
  "re_findall r s = findall_at (length s) r s"

function sub_at :: "nat \<Rightarrow> regex \<Rightarrow> string \<Rightarrow> string \<Rightarrow> string" where
  "sub_at n r repl [] = []"
| "sub_at n r repl (x # t) =
     (case first_match n r (x # t) of
        None \<Rightarrow> x # sub_at n r repl t
      | Some (t', g) \<Rightarrow>
          if length t' < length (x # t) then repl @ sub_at n r repl t'
          else x # sub_at n r repl t)"
  by pat_completeness auto
termination
  by (relation "measure (\<lambda>(n, r, repl, t). length t)") auto

definition re_sub :: "regex \<Rightarrow> string \<Rightarrow> string \<Rightarrow> string" where
  "re_sub r repl s = sub_at (length s) r repl s"

section \<open>Numbers\<close>

text \<open>
  A Python \<open>float\<close> is an IEEE 754 double: a rational that the format represents, an
  infinity or a NaN.  \<open>round_double\<close> rounds a rational to the nearest double, ties to
  even, with gradual underflow and overflow to infinity.  The sign of a zero is not
  recorded: nothing in the program observes it.
\<close>

datatype error = ValueError | OverflowError

datatype pyfloat = Fin rat | PInf | NInf | NaN

fun bit_length :: "nat \<Rightarrow> nat" where
  "bit_length n = (if n = 0 then 0 else Suc (bit_length (n div 2)))"

declare bit_length.simps [simp del]

definition pow2 :: "int \<Rightarrow> rat" where
  "pow2 k = (if 0 \<le> k then 2 ^ nat k else 1 / 2 ^ nat (- k))"

text \<open>\<open>ilog2 x\<close> is the integer part of the binary logarithm of \<open>x > 0\<close>.\<close>

definition ilog2 :: "rat \<Rightarrow> int" where
  "ilog2 x = (if 1 \<le> x then int (bit_length (nat \<lfloor>x\<rfloor>)) - 1
              else - int (bit_length (nat (\<lceil>1 / x\<rceil> - 1))))"

definition round_half_even :: "rat \<Rightarrow> int" where
  "round_half_even x =
     (let f = \<lfloor>x\<rfloor>; r = x - of_int f
      in if r < 1 / 2 then f else if 1 / 2 < r then f + 1 else if even f then f else f + 1)"

definition round_double :: "rat \<Rightarrow> pyfloat" where
  "round_double x =
     (if x = 0 then Fin 0
      else let a = \<bar>x\<bar>;
               e = max (ilog2 a) (- 1022);
               q = pow2 (e - 52);
               y = of_int (round_half_even (a / q)) * q
           in if pow2 1024 \<le> y then (if 0 < x then PInf else NInf)
              else Fin (if 0 < x then y else - y))"

fun fneg :: "pyfloat \<Rightarrow> pyfloat" where
  "fneg (Fin a) = Fin (- a)"
| "fneg PInf = NInf"
| "fneg NInf = PInf"
| "fneg NaN = NaN"

fun fabs :: "pyfloat \<Rightarrow> pyfloat" where
  "fabs (Fin a) = Fin \<bar>a\<bar>"
| "fabs PInf = PInf"
| "fabs NInf = PInf"
| "fabs NaN = NaN"

fun fadd :: "pyfloat \<Rightarrow> pyfloat \<Rightarrow> pyfloat" where
  "fadd (Fin a) (Fin b) = round_double (a + b)"
| "fadd NaN _ = NaN"
| "fadd _ NaN = NaN"
| "fadd PInf NInf = NaN"
| "fadd NInf PInf = NaN"
| "fadd PInf _ = PInf"
| "fadd _ PInf = PInf"
| "fadd NInf _ = NInf"
| "fadd _ NInf = NInf"

definition fsub :: "pyfloat \<Rightarrow> pyfloat \<Rightarrow> pyfloat" where
  "fsub x y = fadd x (fneg y)"

fun fsign :: "pyfloat \<Rightarrow> int" where
  "fsign (Fin a) = sgn \<lfloor>if 0 < a then 1 else if a < 0 then - 1 else (0 :: rat)\<rfloor>"
| "fsign PInf = 1"
| "fsign NInf = - 1"
| "fsign NaN = 0"

fun fmul :: "pyfloat \<Rightarrow> pyfloat \<Rightarrow> pyfloat" where
  "fmul (Fin a) (Fin b) = round_double (a * b)"
| "fmul NaN _ = NaN"
| "fmul _ NaN = NaN"
| "fmul x y =
     (if fsign x * fsign y = 0 then NaN else if 0 < fsign x * fsign y then PInf else NInf)"

text \<open>\<open>x < y\<close> on floats: false as soon as one side is a NaN.\<close>

fun flt :: "pyfloat \<Rightarrow> pyfloat \<Rightarrow> bool" where
  "flt (Fin a) (Fin b) = (a < b)"
| "flt NaN _ = False"
| "flt _ NaN = False"
| "flt NInf y = (y \<noteq> NInf)"
| "flt x PInf = (x \<noteq> PInf)"
| "flt _ _ = False"

text \<open>\<open>x <= y\<close> on floats.\<close>

definition fle :: "pyfloat \<Rightarrow> pyfloat \<Rightarrow> bool" where
  "fle x y = (flt x y \<or> (x = y \<and> x \<noteq> NaN))"

text \<open>The literal \<open>0.01\<close>.\<close>

definition lit_0_01 :: pyfloat where
  "lit_0_01 = round_double (1 / 100)"

text \<open>
  \<open>int(s)\<close> and \<open>float(s)\<close> on the strings that the patterns of the program can hand to
  them: digits, with at most one decimal point for \<open>float\<close>.  \<open>float\<close> raises
  \<open>ValueError\<close> when \<open>s\<close> has no digit; integers are unbounded.
\<close>

definition digits_val :: "string \<Rightarrow> nat" where
  "digits_val s = foldl (\<lambda>a c. 10 * a + (of_char c - 48)) 0 s"

definition py_int :: "string \<Rightarrow> error + int" where
  "py_int s = (if s \<noteq> [] \<and> list_all is_digit s then Inr (int (digits_val s)) else Inl ValueError)"

definition py_float :: "string \<Rightarrow> error + pyfloat" where
  "py_float s =
     (let ip = takeWhile is_digit s
      in case dropWhile is_digit s of
           [] \<Rightarrow> if ip = [] then Inl ValueError else Inr (round_double (of_nat (digits_val ip)))
         | c # fp \<Rightarrow>
             if c = CHR ''.'' \<and> list_all is_digit fp \<and> (ip \<noteq> [] \<or> fp \<noteq> [])
             then Inr (round_double
                         (of_nat (digits_val ip) + of_nat (digits_val fp) / 10 ^ length fp))
             else Inl ValueError)"

text \<open>\<open>q * x\<close> for an \<open>int\<close> and a \<open>float\<close>: the integer is converted first, and
  the conversion raises \<open>OverflowError\<close> when it is too large for a double.\<close>

definition int_to_float :: "int \<Rightarrow> error + pyfloat" where
  "int_to_float q =
     (case round_double (of_int q) of
        Fin a \<Rightarrow> Inr (Fin a)
      | _ \<Rightarrow> Inl OverflowError)"

definition int_times_float :: "int \<Rightarrow> pyfloat \<Rightarrow> error + pyfloat" where
  "int_times_float q x = (case int_to_float q of Inl e \<Rightarrow> Inl e | Inr y \<Rightarrow> Inr (fmul y x))"

text \<open>
  The score of \<open>calculate_confidence_score\<close> and the weights of \<open>detect_invoice_format\<close>
  mix \<open>int\<close> and \<open>float\<close>.  Every float that occurs there is a multiple of \<open>0.5\<close>
  (or is replaced by \<open>10\<close> in a \<open>min\<close>), so it is kept as an exact rational.
  \<open>min(a, b)\<close> returns \<open>a\<close> unless \<open>b < a\<close>.
\<close>

datatype pynum = PInt int | PFloat rat

fun num_val :: "pynum \<Rightarrow> rat" where
  "num_val (PInt i) = of_int i"
| "num_val (PFloat x) = x"

fun padd :: "pynum \<Rightarrow> pynum \<Rightarrow> pynum" where
  "padd (PInt i) (PInt j) = PInt (i + j)"
| "padd a b = PFloat (num_val a + num_val b)"

definition pmin :: "pynum \<Rightarrow> pynum \<Rightarrow> pynum" where
  "pmin a b = (if num_val b < num_val a then b else a)"

fun is_int :: "pynum \<Rightarrow> bool" where
  "is_int (PInt i) = True"
| "is_int (PFloat x) = False"

section \<open>The OCR text normalizer\<close>

text \<open>\<open>r'\s+([JlI])\s+\$'\<close>\<close>

definition is_JlI :: "char \<Rightarrow> bool" where
  "is_JlI c = (c = CHR ''J'' \<or> c = CHR ''l'' \<or> c = CHR ''I'')"

definition quantity_pattern :: regex where
  "quantity_pattern =
     Seqs [Plus (Cls is_space), Grp (Cls is_JlI), Plus (Cls is_space), Chr (CHR ''$'')]"

definition normalize_line :: "string \<Rightarrow> string" where
  "normalize_line line =
     (if CHR ''$'' \<in> set line \<and> \<not> startswith line ''Total''
      then (let fixed_line = re_sub quantity_pattern '' 1 $'' line;
                parts = split_on (CHR ''$'') fixed_line
            in if 1 < length parts
               then join_with ''$'' (hd parts # map (replace_char (CHR ''O'') ''0'') (tl parts))
               else fixed_line)
      else line)"

definition normalize_ocr_errors :: "string \<Rightarrow> string" where
  "normalize_ocr_errors text =
     join_with [newline] (map normalize_line (split_on newline text))"

section \<open>The field extractor\<close>

record line_item =
  description :: string
  quantity :: int
  unit_price :: pyfloat
  item_total :: pyfloat

record bill_to_rec =
  name :: "string option"
  email :: "string option"

record receipt =
  receipt_number :: "string option"
  date :: "string option"
  bill_to :: bill_to_rec
  items :: "line_item list"
  total_amount :: "pyfloat option"
  payment_method :: "string option"
  ocr_corrections_applied :: bool

subsection \<open>Line items\<close>

text \<open>\<open>r'^(.+?)\s+(\d+)\s+\$?(\d+\.\d{2})\s+\$?(\d+\.\d{2})$'\<close>\<close>

definition price :: regex where
  "price = Seqs [Plus (Cls is_digit), Chr (CHR ''.''), Times 2 (Cls is_digit)]"

definition item_pattern :: regex where
  "item_pattern =
     Seqs [Bol,
           Grp (LPlus (Cls (\<lambda>c. c \<noteq> newline))),
           Plus (Cls is_space),
           Grp (Plus (Cls is_digit)),
           Plus (Cls is_space),
           Opt (Chr (CHR ''$'')),
           Grp price,
           Plus (Cls is_space),
           Opt (Chr (CHR ''$'')),
           Grp price,
           Eol]"

text \<open>The first loop of \<open>extract_line_items\<close>: \<open>i\<close> is the index of the line,
  the result is \<open>(table_start, table_end)\<close>.\<close>

fun table_bounds :: "string list \<Rightarrow> int \<Rightarrow> int \<Rightarrow> int \<times> int" where
  "table_bounds [] i table_start = (table_start, - 1)"
| "table_bounds (line # rest) i table_start =
     (let table_start' =
            (if contains line ''Item Description'' \<and> contains line ''Quantity''
             then i + 1 else table_start)
      in if contains line ''Total Amount:'' then (table_start', i)
         else table_bounds rest (i + 1) table_start')"

text \<open>The lines \<open>lines[i]\<close> for \<open>i\<close> in \<open>range(table_start, stop)\<close>.\<close>

definition table_rows :: "string \<Rightarrow> string list" where
  "table_rows text =
     (let lines = split_on newline text;
          (table_start, table_end) = table_bounds lines 0 (- 1)
      in if table_start = - 1 then []
         else (let stop = (if table_end \<noteq> - 1 then table_end else int (length lines))
               in take (nat (stop - table_start)) (drop (nat table_start) lines)))"

text \<open>The body of the second loop: \<open>Inr None\<close> when the line gives no item.\<close>

definition parse_row :: "string \<Rightarrow> error + line_item option" where
  "parse_row raw =
     (let line = strip raw
      in if line = [] then Inr None
         else (case re_match item_pattern line of
                 Some [g1, g2, g3, g4] \<Rightarrow>
                   (case py_int g2 of Inl e \<Rightarrow> Inl e | Inr q \<Rightarrow>
                    case py_float g3 of Inl e \<Rightarrow> Inl e | Inr u \<Rightarrow>
                    case py_float g4 of Inl e \<Rightarrow> Inl e | Inr t \<Rightarrow>
                    case int_times_float q u of Inl e \<Rightarrow> Inl e
                    | Inr expected_total \<Rightarrow>
                        if flt (fabs (fsub expected_total t)) lit_0_01
                        then Inr (Some \<lparr>description = strip g1, quantity = q,
                                        unit_price = u, item_total = t\<rparr>)
                        else Inr None)
               | _ \<Rightarrow> Inr None))"

fun rows_loop :: "string list \<Rightarrow> line_item list \<Rightarrow> error + line_item list" where
  "rows_loop [] acc = Inr acc"
| "rows_loop (raw # rest) acc =
     (case parse_row raw of
        Inl e \<Rightarrow> Inl e
      | Inr None \<Rightarrow> rows_loop rest acc
      | Inr (Some item) \<Rightarrow> rows_loop rest (acc @ [item]))"

definition extract_line_items :: "string \<Rightarrow> error + line_item list" where
  "extract_line_items text = rows_loop (table_rows text) []"

subsection \<open>Scalar fields\<close>

text \<open>\<open>r'Receipt\s*#(\d+)'\<close> with \<open>re.IGNORECASE\<close>\<close>

definition receipt_pattern :: regex where
  "receipt_pattern =
     Seqs [LitI ''Receipt'', Star (Cls is_space), Chr (CHR ''#''), Grp (Plus (Cls is_digit))]"

definition months :: regex where
  "months = Alts (map Lit [''January'', ''February'', ''March'', ''April'', ''May'', ''June'',
     ''July'', ''August'', ''September'', ''October'', ''November'', ''December''])"

text \<open>\<open>r'(January|...|December)\s+(\d{1,2}),?\s+(\d{4})'\<close>\<close>

definition date_pattern :: regex where
  "date_pattern =
     Seqs [Grp months, Plus (Cls is_space), Grp (Seq (Cls is_digit) (Opt (Cls is_digit))),
           Opt (Chr (CHR '','')), Plus (Cls is_space), Grp (Times 4 (Cls is_digit))]"

text \<open>\<open>r'Bill\s+To:\s*\n?\s*([A-Z][a-z]+(?:\s+[A-Z][a-z]+)+)'\<close>\<close>

definition name_pattern :: regex where
  "name_pattern =
     Seqs [Lit ''Bill'', Plus (Cls is_space), Lit ''To:'', Star (Cls is_space),
           Opt (Chr newline), Star (Cls is_space),
           Grp (Seqs [Cls is_upper, Plus (Cls is_lower),
                      Plus (Seqs [Plus (Cls is_space), Cls is_upper, Plus (Cls is_lower)])])]"

text \<open>\<open>r'([a-zA-Z0-9._%+-]+@[a-zA-Z0-9.-]+\.[a-zA-Z]{2,})'\<close>\<close>

definition email_pattern :: regex where
  "email_pattern =
     Grp (Seqs [Plus (Cls (\<lambda>c. is_alpha c \<or> is_digit c \<or> c \<in> set ''._%+-'')),
                Chr (CHR ''@''),
                Plus (Cls (\<lambda>c. is_alpha c \<or> is_digit c \<or> c \<in> set ''.-'')),
                Chr (CHR ''.''),
                Times 2 (Cls is_alpha), Star (Cls is_alpha)])"

text \<open>\<open>r'Total\s+Amount:\s*\$?([\d,]+\.?\d*)'\<close> with \<open>re.IGNORECASE\<close>\<close>

definition total_pattern :: regex where
  "total_pattern =
     Seqs [LitI ''Total'', Plus (Cls is_space), LitI ''Amount:'', Star (Cls is_space),
           Opt (Chr (CHR ''$'')),
           Grp (Seqs [Plus (Cls (\<lambda>c. is_digit c \<or> c = CHR '','')), Opt (Chr (CHR ''.'')),
                      Star (Cls is_digit)])]"

text \<open>\<open>r'Payment\s+Method:\s*([^\n]+)'\<close> with \<open>re.IGNORECASE\<close>\<close>

definition payment_pattern :: regex where
  "payment_pattern =
     Seqs [LitI ''Payment'', Plus (Cls is_space), LitI ''Method:'', Star (Cls is_space),
           Grp (Plus (Cls (\<lambda>c. c \<noteq> newline)))]"

text \<open>The email loop: the first match that does not start with \<open>inquire\<close>.\<close>

definition find_email :: "string \<Rightarrow> string option" where
  "find_email text =
     List.find (\<lambda>email. \<not> startswith email ''inquire'')
       (map (\<lambda>g. case g of [] \<Rightarrow> [] | e # _ \<Rightarrow> e) (re_findall email_pattern text))"

text \<open>The total: \<open>float\<close> raises when the match has commas and points only.\<close>

definition find_total :: "string \<Rightarrow> error + pyfloat option" where
  "find_total text =
     (case re_search total_pattern text of
        Some [g] \<Rightarrow>
          (case py_float (replace_char (CHR '','') [] g) of
             Inl e \<Rightarrow> Inl e
           | Inr amount \<Rightarrow> Inr (Some amount))
      | _ \<Rightarrow> Inr None)"

definition extract_receipt_fields_v3 :: "string \<Rightarrow> error + receipt" where
  "extract_receipt_fields_v3 raw_text =
     (let text = normalize_ocr_errors raw_text;
          receipt_number = (case re_search receipt_pattern text of
                              Some [g] \<Rightarrow> Some g | _ \<Rightarrow> None);
          date = (case re_search date_pattern text of
                    Some [g1, g2, g3] \<Rightarrow> Some (g1 @ '' '' @ g2 @ '', '' @ g3) | _ \<Rightarrow> None);
          name = (case re_search name_pattern text of
                    Some [g] \<Rightarrow> Some (strip g) | _ \<Rightarrow> None);
          email = find_email text
      in case find_total text of
           Inl e \<Rightarrow> Inl e
         | Inr amount \<Rightarrow>
             (let payment_method = (case re_search payment_pattern text of
                                      Some [g] \<Rightarrow> Some (strip g) | _ \<Rightarrow> None)
              in case extract_line_items text of
                   Inl e \<Rightarrow> Inl e
                 | Inr its \<Rightarrow>
                     Inr \<lparr>receipt_number = receipt_number, date = date,
                          bill_to = \<lparr>name = name, email = email\<rparr>,
                          items = its, total_amount = amount,
                          payment_method = payment_method,
                          ocr_corrections_applied = True\<rparr>))"

section \<open>The validator\<close>

text \<open>
  A warning is the text of an f-string; it is kept as the values that the f-string
  formats: the sum of the items and the stated total, the email, the year.  \<open>sum\<close>
  adds the item totals from left to right, starting from \<open>0\<close>.
\<close>

datatype warning =
    SumMismatch pyfloat pyfloat
  | EmailInvalid string
  | UnusualYear int

definition year_pattern :: regex where
  "year_pattern = Grp (Times 4 (Cls is_digit))"

definition check_items_sum :: "receipt \<Rightarrow> warning list" where
  "check_items_sum data =
     (case total_amount data of
        None \<Rightarrow> []
      | Some amount \<Rightarrow>
          if items data \<noteq> [] \<and> amount \<noteq> Fin 0
          then (let items_sum = foldl fadd (Fin 0) (map item_total (items data));
                    difference = fabs (fsub items_sum amount)
                in if flt lit_0_01 difference then [SumMismatch items_sum amount] else [])
          else [])"

definition check_email :: "receipt \<Rightarrow> warning list" where
  "check_email data =
     (case email (bill_to data) of
        None \<Rightarrow> []
      | Some e \<Rightarrow>
          if e \<noteq> []
          then (if CHR ''@'' \<in> set e \<and> CHR ''.'' \<in> set e then [] else [EmailInvalid e])
          else [])"

definition check_date :: "receipt \<Rightarrow> warning list" where
  "check_date data =
     (case date data of
        None \<Rightarrow> []
      | Some d \<Rightarrow>
          if d \<noteq> []
          then (case re_search year_pattern d of
                  Some [g] \<Rightarrow>
                    (let year = int (digits_val g)
                     in if 2020 \<le> year \<and> year \<le> 2100 then [] else [UnusualYear year])
                | _ \<Rightarrow> [])
          else [])"

definition validate_extraction :: "receipt \<Rightarrow> warning list" where
  "validate_extraction data = check_items_sum data @ check_email data @ check_date data"

section \<open>The confidence scorer\<close>

text \<open>
  The scorer walks the record as a dictionary, one key of the dotted path at a time,
  and tests the value it reaches for truth.
\<close>

datatype pyval =
    VNone
  | VStr string
  | VFloat pyfloat
  | VBool bool
  | VItems "line_item list"
  | VDict "(string \<times> pyval) list"

fun opt_str :: "string option \<Rightarrow> pyval" where
  "opt_str None = VNone"
| "opt_str (Some s) = VStr s"

fun opt_float :: "pyfloat option \<Rightarrow> pyval" where
  "opt_float None = VNone"
| "opt_float (Some x) = VFloat x"

definition as_dict :: "receipt \<Rightarrow> pyval" where
  "as_dict data =
     VDict [(''receipt_number'', opt_str (receipt_number data)),
            (''date'', opt_str (date data)),
            (''bill_to'', VDict [(''name'', opt_str (name (bill_to data))),
                                 (''email'', opt_str (email (bill_to data)))]),
            (''items'', VItems (items data)),
            (''total_amount'', opt_float (total_amount data)),
            (''payment_method'', opt_str (payment_method data)),
            (''ocr_corrections_applied'', VBool (ocr_corrections_applied data))]"

text \<open>\<open>value.get(key) if isinstance(value, dict) else None\<close>\<close>

fun get_key :: "pyval \<Rightarrow> string \<Rightarrow> pyval" where
  "get_key (VDict d) key = (case map_of d key of None \<Rightarrow> VNone | Some v \<Rightarrow> v)"
| "get_key _ key = VNone"

fun truthy :: "pyval \<Rightarrow> bool" where
  "truthy VNone = False"
| "truthy (VStr s) = (s \<noteq> [])"
| "truthy (VFloat x) = (x \<noteq> Fin 0)"
| "truthy (VBool b) = b"
| "truthy (VItems l) = (l \<noteq> [])"
| "truthy (VDict d) = (d \<noteq> [])"

definition fields_to_check :: "(string \<times> int) list" where
  "fields_to_check =
     [(''receipt_number'', 20), (''date'', 20), (''bill_to.name'', 15),
      (''bill_to.email'', 15), (''total_amount'', 20), (''payment_method'', 10)]"

definition score_field :: "pyval \<Rightarrow> pynum \<Rightarrow> string \<times> int \<Rightarrow> pynum" where
  "score_field data score fw =
     (let v = foldl get_key data (split_on (CHR ''.'') (fst fw))
      in if truthy v then padd score (PInt (snd fw)) else score)"

definition calculate_confidence_score :: "receipt \<Rightarrow> pynum" where
  "calculate_confidence_score data =
     (let score = foldl (score_field (as_dict data)) (PInt 0) fields_to_check;
          score' = (if items data \<noteq> []
                    then padd score (pmin (PFloat (of_nat (length (items data)) * (5 / 2)))
                                          (PInt 10))
                    else score)
      in pmin score' (PInt 100))"

section \<open>The format classifier\<close>

record format_match =
  format_name :: string
  confidence :: rat
  indicators :: "string list"
  supported :: bool

definition template_a_patterns :: "(regex \<times> string) list" where
  "template_a_patterns =
     [(Seqs [LitI ''Receipt'', Star (Cls is_space), Chr (CHR ''#''), Plus (Cls is_digit)],
       ''Receipt # format''),
      (Seqs [Alts (map LitI [''January'', ''February'', ''March'', ''April'', ''May'', ''June'',
               ''July'', ''August'', ''September'', ''October'', ''November'', ''December'']),
             Plus (Cls is_space), Cls is_digit, Opt (Cls is_digit), Opt (Chr (CHR '','')),
             Plus (Cls is_space), Times 4 (Cls is_digit)],
       ''Written month format''),
      (Seqs [LitI ''Total'', Plus (Cls is_space), LitI ''Amount:''], ''Total Amount: label''),
      (Seqs [LitI ''Payment'', Plus (Cls is_space), LitI ''Method:''],
       ''Payment Method: label''),
      (Seqs [LitI ''Item'', Plus (Cls is_space), LitI ''Description'', Plus (Cls is_space),
             LitI ''Quantity''],
       ''Standard table header'')]"

definition template_b_patterns :: "(regex \<times> string) list" where
  "template_b_patterns =
     [(Seqs [LitI ''RECEIPT'', Star (Cls is_space), Chr (CHR ''#'')], ''RECEIPT # (uppercase)''),
      (Seqs [LitI ''RECEIPT'', Plus (Cls is_space), LitI ''DATE''], ''RECEIPT DATE label''),
      (Seqs [Times 2 (Cls is_digit), Chr (CHR ''/''), Times 2 (Cls is_digit), Chr (CHR ''/''),
             Times 4 (Cls is_digit)],
       ''Date format DD/MM/YYYY''),
      (Seqs [LitI ''BILL'', Star (Cls is_space), LitI ''TO''], ''BILL TO (uppercase)''),
      (Seqs [LitI ''SHIP'', Star (Cls is_space), LitI ''TO''], ''SHIP TO label''),
      (Seqs [LitI ''QTY'', Plus (Cls is_space), LitI ''DESCRIPTION''],
       ''QTY DESCRIPTION header''),
      (Seqs [LitI ''UNIT'', Plus (Cls is_space), LitI ''PRICE''], ''UNIT PRICE column''),
      (Seqs [LitI ''East'', Plus (Cls is_space), LitI ''Repair''], ''East Repair Inc.'')]"

text \<open>One pass of a scoring loop: every pattern found adds \<open>weight\<close> and its label.\<close>

fun score_patterns ::
  "(regex \<times> string) list \<Rightarrow> rat \<Rightarrow> string \<Rightarrow> format_match \<Rightarrow> format_match" where
  "score_patterns [] weight ocr_text fmt = fmt"
| "score_patterns ((pattern, indicator) # rest) weight ocr_text fmt =
     score_patterns rest weight ocr_text
       (if re_search pattern ocr_text \<noteq> None
        then fmt\<lparr>confidence := confidence fmt + weight,
                 indicators := indicators fmt @ [indicator]\<rparr>
        else fmt)"

definition template_a :: "string \<Rightarrow> format_match" where
  "template_a ocr_text =
     score_patterns template_a_patterns 20 ocr_text
       \<lparr>format_name = ''Retail Receipt (Template A)'', confidence = 0, indicators = [],
        supported = True\<rparr>"

definition template_b :: "string \<Rightarrow> format_match" where
  "template_b ocr_text =
     score_patterns template_b_patterns (25 / 2) ocr_text
       \<lparr>format_name = ''Professional Invoice (Template B)'', confidence = 0, indicators = [],
        supported = False\<rparr>"

definition unknown :: format_match where
  "unknown = \<lparr>format_name = ''Unknown Format'', confidence = 0, indicators = [],
              supported = False\<rparr>"

text \<open>\<open>max(..., key=...)\<close> keeps the first of the entries with the greatest key.\<close>

fun max_by_confidence :: "format_match \<Rightarrow> format_match list \<Rightarrow> format_match" where
  "max_by_confidence best [] = best"
| "max_by_confidence best (f # fs) =
     max_by_confidence (if confidence best < confidence f then f else best) fs"

definition detect_invoice_format :: "string \<Rightarrow> format_match" where
  "detect_invoice_format ocr_text =
     (let best_format = max_by_confidence (template_a ocr_text) [template_b ocr_text, unknown]
      in if confidence best_format < 30 then unknown else best_format)"

section \<open>Notions used in the proofs\<close>

text \<open>
  \<open>sem r u g\<close>: the expression \<open>r\<close> matches the string \<open>u\<close> and captures the groups
  \<open>g\<close> while doing so (the anchors are not looked at).  The matcher is sound for this
  relation, and complete for it on expressions without anchors.
\<close>

inductive sem :: "regex \<Rightarrow> string \<Rightarrow> string list \<Rightarrow> bool" where
  sem_Cls: "p x \<Longrightarrow> sem (Cls p) [x] []"
| sem_Eps: "sem Eps [] []"
| sem_Seq: "sem a u g \<Longrightarrow> sem b v h \<Longrightarrow> sem (Seq a b) (u @ v) (g @ h)"
| sem_AltL: "sem a u g \<Longrightarrow> sem (Alt a b) u g"
| sem_AltR: "sem b u g \<Longrightarrow> sem (Alt a b) u g"
| sem_Star0: "sem (Star a) [] []"
| sem_StarS: "sem a u g \<Longrightarrow> sem (Star a) v h \<Longrightarrow> sem (Star a) (u @ v) (g @ h)"
| sem_LStar0: "sem (LStar a) [] []"
| sem_LStarS: "sem a u g \<Longrightarrow> sem (LStar a) v h \<Longrightarrow> sem (LStar a) (u @ v) (g @ h)"
| sem_Grp: "sem a u g \<Longrightarrow> sem (Grp a) u (g @ [u])"
| sem_Bol: "sem Bol [] []"
| sem_Eol: "sem Eol [] []"

fun anchor_free :: "regex \<Rightarrow> bool" where
  "anchor_free (Cls p) = True"
| "anchor_free Eps = True"
| "anchor_free (Seq a b) = (anchor_free a \<and> anchor_free b)"
| "anchor_free (Alt a b) = (anchor_free a \<and> anchor_free b)"
| "anchor_free (Star a) = anchor_free a"
| "anchor_free (LStar a) = anchor_free a"
| "anchor_free (Grp a) = anchor_free a"
| "anchor_free Bol = False"
| "anchor_free Eol = False"

text \<open>
  A direct reading of \<open>quantity_pattern\<close> on the head of a string: \<open>hit t\<close> says that
  \<open>t\<close> starts with a match, \<open>after_hit t\<close> is what follows the match, \<open>fixq\<close> is the
  substitution and \<open>no_hits\<close> says that no position of a string starts a match.
\<close>

definition dollar_next :: "string \<Rightarrow> bool" where
  "dollar_next t = (case dropWhile is_space t of [] \<Rightarrow> False | y # _ \<Rightarrow> y = CHR ''$'')"

definition gap_dollar :: "string \<Rightarrow> bool" where
  "gap_dollar t = (case t of [] \<Rightarrow> False | y # _ \<Rightarrow> is_space y \<and> dollar_next t)"

definition letter_next :: "string \<Rightarrow> bool" where
  "letter_next t =
     (case dropWhile is_space t of [] \<Rightarrow> False | y # r \<Rightarrow> is_JlI y \<and> gap_dollar r)"

definition hit :: "string \<Rightarrow> bool" where
  "hit t = (case t of [] \<Rightarrow> False | y # _ \<Rightarrow> is_space y \<and> letter_next t)"

definition after_hit :: "string \<Rightarrow> string" where
  "after_hit t = tl (dropWhile is_space (tl (dropWhile is_space t)))"

definition fixq :: "string \<Rightarrow> string" where
  "fixq t = sub_at 0 quantity_pattern '' 1 $'' t"

definition no_hits :: "string \<Rightarrow> bool" where
  "no_hits u = (\<forall>k. \<not> hit (drop k u))"

text \<open>
  The second step of a candidate line, \<open>o_step\<close>, and its closed form \<open>o_fix\<close>: the
  letter \<open>O\<close> becomes \<open>0\<close> from the first \<open>$\<close> on.  Two characters are of the
  \<open>same_class\<close> when \<open>quantity_pattern\<close> cannot tell them apart.
\<close>

definition o_to_zero :: "char \<Rightarrow> char" where
  "o_to_zero c = (if c = CHR ''O'' then CHR ''0'' else c)"

definition o_fix :: "string \<Rightarrow> string" where
  "o_fix v = takeWhile (\<lambda>c. c \<noteq> CHR ''$'') v @ map o_to_zero (dropWhile (\<lambda>c. c \<noteq> CHR ''$'') v)"

definition o_step :: "string \<Rightarrow> string" where
  "o_step v =
     (let parts = split_on (CHR ''$'') v
      in if 1 < length parts
         then join_with ''$'' (hd parts # map (replace_char (CHR ''O'') ''0'') (tl parts))
         else v)"

definition same_class :: "char \<Rightarrow> char \<Rightarrow> bool" where
  "same_class c c' =
     (is_space c = is_space c' \<and> is_JlI c = is_JlI c' \<and> (c = CHR ''$'') = (c' = CHR ''$''))"

section \<open>The row rule as amended\<close>

text \<open>
  \<open>is_price g\<close>: \<open>g\<close> has the shape \<open>\d+\.\d{2}\<close>; \<open>decimal_val g\<close> is the number
  that such a string writes.  \<open>accepted_row\<close> is the rule of the specification for one
  line of the table, with the strict comparison of the program: a line that matches the
  row shape gives an item if and only if \<open>|quantity * unit_price - total| < 0.01\<close>, in
  double precision.
\<close>

definition is_price :: "string \<Rightarrow> bool" where
  "is_price g = (\<exists>a b c. g = a @ [CHR ''.'', b, c] \<and> a \<noteq> [] \<and> list_all is_digit a \<and>
                   is_digit b \<and> is_digit c)"

definition decimal_val :: "string \<Rightarrow> rat" where
  "decimal_val g =
     (let ip = takeWhile is_digit g; fp = tl (dropWhile is_digit g)
      in of_nat (digits_val ip) + of_nat (digits_val fp) / 10 ^ length fp)"

definition accepted_row :: "string \<Rightarrow> line_item list" where
  "accepted_row raw =
     (case re_match item_pattern (strip raw) of
        Some [g1, g2, g3, g4] \<Rightarrow>
          (let q = int (digits_val g2);
               u = round_double (decimal_val g3);
               t = round_double (decimal_val g4);
               expected = fmul (round_double (of_int q)) u
           in if flt (fabs (fsub expected t)) lit_0_01
              then [\<lparr>description = strip g1, quantity = q, unit_price = u, item_total = t\<rparr>]
              else [])
      | _ \<Rightarrow> [])"

section \<open>The scorer as the specification words it\<close>

text \<open>
  A field is present when it is truthy: a string that is not empty, an amount that is
  not zero.  \<open>weight_sum\<close> adds the weights of the six fields that are present.
\<close>

definition present :: "string option \<Rightarrow> bool" where
  "present x = (case x of None \<Rightarrow> False | Some s \<Rightarrow> s \<noteq> [])"

definition present_amount :: "pyfloat option \<Rightarrow> bool" where
  "present_amount x = (case x of None \<Rightarrow> False | Some a \<Rightarrow> a \<noteq> Fin 0)"

definition weight_sum :: "receipt \<Rightarrow> int" where
  "weight_sum data =
     (if present (receipt_number data) then 20 else 0) +
     (if present (date data) then 20 else 0) +
     (if present (name (bill_to data)) then 15 else 0) +
     (if present (email (bill_to data)) then 15 else 0) +
     (if present_amount (total_amount data) then 20 else 0) +
     (if present (payment_method data) then 10 else 0)"


section \<open>Example inputs\<close>

definition empty_receipt :: receipt where
  "empty_receipt =
     \<lparr>receipt_number = None, date = None, bill_to = \<lparr>name = None, email = None\<rparr>,
      items = [], total_amount = None, payment_method = None,
      ocr_corrections_applied = True\<rparr>"

definition widget :: line_item where
  "widget = \<lparr>description = ''Widget'', quantity = 2, unit_price = Fin 5, item_total = Fin 10\<rparr>"

definition one_item_receipt :: receipt where
  "one_item_receipt = empty_receipt\<lparr>items := [widget]\<rparr>"

definition full_receipt :: receipt where
  "full_receipt =
     \<lparr>receipt_number = Some ''4521'', date = Some ''March 15, 2050'',
      bill_to = \<lparr>name = Some ''John Smith'', email = Some ''john@mail.org''\<rparr>,
      items = [widget, widget], total_amount = Some (Fin 20),
      payment_method = Some ''Credit Card'', ocr_corrections_applied = True\<rparr>"

definition email_receipt :: "string \<Rightarrow> receipt" where
  "email_receipt e = empty_receipt\<lparr>bill_to := \<lparr>name = None, email = Some e\<rparr>\<rparr>"

definition table_text :: "string list \<Rightarrow> string" where
  "table_text rows = join_with [newline] (''Item Description Quantity'' # rows)"

definition gadget :: line_item where
  "gadget = \<lparr>description = ''Gadget'', quantity = 2, unit_price = Fin (3 / 2), item_total = Fin 3\<rparr>"

section \<open>Properties of the confidence scorer\<close>

lemma truthy_opt_str: "truthy (opt_str x) = present x"
  by (cases x) (simp_all add: present_def)

lemma truthy_opt_float: "truthy (opt_float x) = present_amount x"
  by (cases x) (simp_all add: present_amount_def)

lemma padd_if: "(if b then padd (PInt a) (PInt w) else PInt a) = PInt (a + (if b then w else 0))"
  by simp

lemma fields_score:
  "foldl (score_field (as_dict data)) (PInt 0) fields_to_check = PInt (weight_sum data)"
  by (simp add: fields_to_check_def score_field_def as_dict_def truthy_opt_str
      truthy_opt_float weight_sum_def padd_if del: padd.simps)

lemma num_val_padd: "num_val (padd a b) = num_val a + num_val b"
  by (cases a; cases b) simp_all

lemma num_val_pmin: "num_val (pmin a b) = min (num_val a) (num_val b)"
  by (simp add: pmin_def min_def)

lemma score_value:
  "num_val (calculate_confidence_score data) =
     min (of_int (weight_sum data) + min (of_nat (length (items data)) * (5 / 2)) 10) 100"
  by (simp add: calculate_confidence_score_def fields_score num_val_pmin num_val_padd Let_def)





text \<open>
  C3.  For every record the score is \<open>min(S + min(len(items) * 2.5, 10), 100)\<close>, where
  \<open>S\<close> is the sum of the weights 20, 20, 15, 15, 20 and 10 of the fields
  \<open>receipt_number\<close>, \<open>date\<close>, \<open>bill_to.name\<close>, \<open>bill_to.email\<close>, \<open>total_amount\<close>
  and \<open>payment_method\<close> that are truthy.
\<close>

theorem confidence_score_formula:
  "num_val (calculate_confidence_score data) =
     min (of_int (weight_sum data) + min (of_nat (length (items data)) * (5 / 2)) 10) 100"
  by (rule score_value)

theorem confidence_score_formula_witness:
  "num_val (calculate_confidence_score full_receipt) = 100 \<and>
   num_val (calculate_confidence_score one_item_receipt) = 5 / 2"
proof -
  have a: "weight_sum full_receipt = 100" "length (items full_receipt) = 2"
    by (simp_all add: full_receipt_def weight_sum_def present_def present_amount_def)
  have b: "weight_sum one_item_receipt = 0" "length (items one_item_receipt) = 1"
    by (simp_all add: one_item_receipt_def empty_receipt_def weight_sum_def present_def
        present_amount_def)
  show ?thesis
    using confidence_score_formula [of full_receipt]
      confidence_score_formula [of one_item_receipt]
    by (simp add: a b)
qed




section \<open>Properties of the format classifier\<close>

lemma max_by_confidence_cases:
  "max_by_confidence a [b, c] = a \<or> max_by_confidence a [b, c] = b \<or>
   max_by_confidence a [b, c] = c"
  by simp

text \<open>
  C4.  When neither template scores 30, the classifier returns the unknown result: name
  \<open>Unknown Format\<close>, not supported, without the indicators of the template that scored
  most.
\<close>

theorem below_threshold_unknown:
  assumes "confidence (template_a ocr_text) < 30" and "confidence (template_b ocr_text) < 30"
  shows "detect_invoice_format ocr_text =
           \<lparr>format_name = ''Unknown Format'', confidence = 0, indicators = [],
            supported = False\<rparr>"
proof -
  have "confidence unknown < 30" by (simp add: unknown_def)
  with assms have "confidence (max_by_confidence (template_a ocr_text)
                     [template_b ocr_text, unknown]) < 30"
    using max_by_confidence_cases [of "template_a ocr_text" "template_b ocr_text" unknown]
    by auto
  then show ?thesis
    by (simp add: detect_invoice_format_def Let_def unknown_def)
qed

theorem below_threshold_unknown_witness:
  "template_a ''Receipt #1'' =
     \<lparr>format_name = ''Retail Receipt (Template A)'', confidence = 20,
      indicators = [''Receipt # format''], supported = True\<rparr> \<and>
   confidence (template_b ''Receipt #1'') = 25 / 2 \<and>
   detect_invoice_format ''Receipt #1'' =
     \<lparr>format_name = ''Unknown Format'', confidence = 0, indicators = [], supported = False\<rparr>"
proof -
  have a: "template_a ''Receipt #1'' =
     \<lparr>format_name = ''Retail Receipt (Template A)'', confidence = 20,
      indicators = [''Receipt # format''], supported = True\<rparr>"
    by code_simp
  have b: "confidence (template_b ''Receipt #1'') = 25 / 2"
    by code_simp
  have "confidence (template_a ''Receipt #1'') < 30" by (simp add: a)
  moreover have "confidence (template_b ''Receipt #1'') < 30" by (simp add: b)
  ultimately show ?thesis
    using below_threshold_unknown [of "''Receipt #1''"] a b by simp
qed

text \<open>
  C8.  The result of the classifier has a confidence of at least 30, or it is the unknown
  result, with confidence 0, not supported and no indicators; its confidence is never
  strictly between 0 and 30.
\<close>

theorem detect_confidence_gap:
  "(30 \<le> confidence (detect_invoice_format ocr_text) \<or>
    detect_invoice_format ocr_text =
      \<lparr>format_name = ''Unknown Format'', confidence = 0, indicators = [],
       supported = False\<rparr>) \<and>
   \<not> (0 < confidence (detect_invoice_format ocr_text) \<and>
      confidence (detect_invoice_format ocr_text) < 30)"
  by (simp add: detect_invoice_format_def Let_def unknown_def)

theorem detect_confidence_gap_witness:
  "confidence (detect_invoice_format ''Receipt #1 Total Amount:'') = 40 \<and>
   \<not> (0 < confidence (detect_invoice_format ''Receipt #1 Total Amount:'') \<and>
      confidence (detect_invoice_format ''Receipt #1 Total Amount:'') < 30)"
proof -
  have "confidence (detect_invoice_format ''Receipt #1 Total Amount:'') = 40"
    by code_simp
  then show ?thesis
    using detect_confidence_gap [of "''Receipt #1 Total Amount:''"] by simp
qed

section \<open>Properties of the validator\<close>

lemma check_date_cases: "check_date data = [] \<or> (\<exists>y. check_date data = [UnusualYear y])"
  by (simp add: check_date_def Let_def split: option.split list.split)

lemma check_items_sum_cases:
  "check_items_sum data = [] \<or> (\<exists>x y. check_items_sum data = [SumMismatch x y])"
  by (simp add: check_items_sum_def Let_def split: option.split)

lemma check_email_eq:
  "email (bill_to data) = Some e \<Longrightarrow> e \<noteq> [] \<Longrightarrow>
   check_email data =
     (if CHR ''@'' \<in> set e \<and> CHR ''.'' \<in> set e then [] else [EmailInvalid e])"
  by (simp add: check_email_def)

lemma email_warning_iff:
  assumes "email (bill_to data) = Some e" and "e \<noteq> []"
  shows "EmailInvalid e \<in> set (validate_extraction data) \<longleftrightarrow>
           \<not> (CHR ''@'' \<in> set e \<and> CHR ''.'' \<in> set e)"
proof -
  have "EmailInvalid e \<notin> set (check_items_sum data)"
    using check_items_sum_cases [of data] by auto
  moreover have "EmailInvalid e \<notin> set (check_date data)"
    using check_date_cases [of data] by auto
  moreover have "EmailInvalid e \<in> set (check_email data) \<longleftrightarrow>
           \<not> (CHR ''@'' \<in> set e \<and> CHR ''.'' \<in> set e)"
    by (simp only: check_email_eq [OF assms]) simp
  ultimately show ?thesis by (simp add: validate_extraction_def)
qed

text \<open>
  C5, read as the specification words it (a warning if and only if the email lacks both
  characters), fails: \<open>a@b\<close> has an \<open>@\<close>, so it does not lack both, and the validator
  warns about it.
\<close>

theorem email_with_at_only_warned:
  "email (bill_to (email_receipt ''a@b'')) = Some ''a@b'' \<and>
   CHR ''@'' \<in> set ''a@b'' \<and>
   EmailInvalid ''a@b'' \<in> set (validate_extraction (email_receipt ''a@b''))"
  by (simp add: email_receipt_def empty_receipt_def validate_extraction_def check_email_def
      check_items_sum_def check_date_def)

text \<open>
  C5, amended.  For every record whose email is present (not empty), the validator
  appends the email warning if and only if the email does not contain both an \<open>@\<close> and
  a \<open>.\<close>, that is, if it lacks at least one of them.
\<close>

theorem validate_email_warning:
  assumes "email (bill_to data) = Some e" and "e \<noteq> []"
  shows "EmailInvalid e \<in> set (validate_extraction data) \<longleftrightarrow>
           \<not> (CHR ''@'' \<in> set e \<and> CHR ''.'' \<in> set e)"
  using assms by (rule email_warning_iff)

theorem validate_email_warning_witness:
  "email (bill_to (email_receipt ''.@'')) = Some ''.@'' \<and> ''.@'' \<noteq> [] \<and>
   EmailInvalid ''.@'' \<notin> set (validate_extraction (email_receipt ''.@''))"
proof -
  have a: "email (bill_to (email_receipt ''.@'')) = Some ''.@''"
    by (simp add: email_receipt_def)
  have b: "''.@'' \<noteq> []" by simp
  show ?thesis using validate_email_warning [OF a b] a by simp
qed

section \<open>Properties of the matcher and of the normalizer\<close>

lemma iter_sound:
  assumes f: "\<And>st st'. st' \<in> set (f st) \<Longrightarrow>
                \<exists>u g. sem a u g \<and> fst st = u @ fst st' \<and> snd st' = snd st @ g"
  shows "st' \<in> set (iter f k st) \<Longrightarrow>
           \<exists>u g. sem (Star a) u g \<and> fst st = u @ fst st' \<and> snd st' = snd st @ g"
proof (induction k arbitrary: st)
  case 0
  then have "st' = st" by simp
  then show ?case using sem_Star0 by fastforce
next
  case (Suc k)
  from Suc.prems consider "st' = st"
    | st1 where "st1 \<in> set (f st)" "st' \<in> set (iter f k st1)"
    by auto
  then show ?case
  proof cases
    case 1
    then show ?thesis using sem_Star0 by fastforce
  next
    case 2
    from f [OF 2(1)] obtain u g where
      a: "sem a u g" "fst st = u @ fst st1" "snd st1 = snd st @ g" by blast
    from Suc.IH [OF 2(2)] obtain v h where
      b: "sem (Star a) v h" "fst st1 = v @ fst st'" "snd st' = snd st1 @ h" by blast
    have "sem (Star a) (u @ v) (g @ h)" using a(1) b(1) by (rule sem_StarS)
    then show ?thesis using a b by fastforce
  qed
qed

lemma liter_sound:
  assumes f: "\<And>st st'. st' \<in> set (f st) \<Longrightarrow>
                \<exists>u g. sem a u g \<and> fst st = u @ fst st' \<and> snd st' = snd st @ g"
  shows "st' \<in> set (liter f k st) \<Longrightarrow>
           \<exists>u g. sem (LStar a) u g \<and> fst st = u @ fst st' \<and> snd st' = snd st @ g"
proof (induction k arbitrary: st)
  case 0
  then have "st' = st" by simp
  then show ?case using sem_LStar0 by fastforce
next
  case (Suc k)
  from Suc.prems consider "st' = st"
    | st1 where "st1 \<in> set (f st)" "st' \<in> set (liter f k st1)"
    by auto
  then show ?case
  proof cases
    case 1
    then show ?thesis using sem_LStar0 by fastforce
  next
    case 2
    from f [OF 2(1)] obtain u g where
      a: "sem a u g" "fst st = u @ fst st1" "snd st1 = snd st @ g" by blast
    from Suc.IH [OF 2(2)] obtain v h where
      b: "sem (LStar a) v h" "fst st1 = v @ fst st'" "snd st' = snd st1 @ h" by blast
    have "sem (LStar a) (u @ v) (g @ h)" using a(1) b(1) by (rule sem_LStarS)
    then show ?thesis using a b by fastforce
  qed
qed

lemma run_sound:
  "st' \<in> set (run n r st) \<Longrightarrow>
     \<exists>u g. sem r u g \<and> fst st = u @ fst st' \<and> snd st' = snd st @ g"
proof (induction r arbitrary: st st')
  case (Cls p)
  then show ?case
    by (cases "fst st") (auto split: if_splits intro: sem_Cls)
next
  case Eps
  then show ?case using sem_Eps by fastforce
next
  case (Seq a b)
  from Seq.prems obtain st1 where s: "st1 \<in> set (run n a st)" "st' \<in> set (run n b st1)"
    by auto
  from Seq.IH(1) [OF s(1)] obtain u g where
    a: "sem a u g" "fst st = u @ fst st1" "snd st1 = snd st @ g" by blast
  from Seq.IH(2) [OF s(2)] obtain v h where
    b: "sem b v h" "fst st1 = v @ fst st'" "snd st' = snd st1 @ h" by blast
  have "sem (Seq a b) (u @ v) (g @ h)" using a(1) b(1) by (rule sem_Seq)
  then show ?case using a b by fastforce
next
  case (Alt a b)
  from Alt.prems have "st' \<in> set (run n a st) \<or> st' \<in> set (run n b st)" by simp
  then show ?case
  proof
    assume "st' \<in> set (run n a st)"
    from Alt.IH(1) [OF this] show ?thesis using sem_AltL by blast
  next
    assume "st' \<in> set (run n b st)"
    from Alt.IH(2) [OF this] show ?thesis using sem_AltR by blast
  qed
next
  case (Star a)
  from Star.prems have "st' \<in> set (iter (run n a) (length (fst st)) st)" by simp
  then show ?case using iter_sound [of "run n a" a] Star.IH by blast
next
  case (LStar a)
  from LStar.prems have "st' \<in> set (liter (run n a) (length (fst st)) st)" by simp
  then show ?case using liter_sound [of "run n a" a] LStar.IH by blast
next
  case (Grp a)
  from Grp.prems obtain st1 where s: "st1 \<in> set (run n a st)"
    "st' = (fst st1, snd st1 @ [take (length (fst st) - length (fst st1)) (fst st)])"
    by auto
  from Grp.IH [OF s(1)] obtain u g where
    a: "sem a u g" "fst st = u @ fst st1" "snd st1 = snd st @ g" by blast
  have "take (length (fst st) - length (fst st1)) (fst st) = u" using a(2) by simp
  moreover have "sem (Grp a) u (g @ [u])" using a(1) by (rule sem_Grp)
  ultimately show ?case using a s(2) by fastforce
next
  case Bol
  then show ?case using sem_Bol by (fastforce split: if_splits)
next
  case Eol
  then show ?case using sem_Eol by (fastforce split: if_splits)
qed

lemma iter_Suc_mem:
  "x \<in> set (iter f (Suc k) st) \<longleftrightarrow>
     x = st \<or> (\<exists>st1 \<in> set (f st). length (fst st1) < length (fst st) \<and> x \<in> set (iter f k st1))"
  by auto

lemma liter_Suc_mem:
  "x \<in> set (liter f (Suc k) st) \<longleftrightarrow>
     x = st \<or> (\<exists>st1 \<in> set (f st). length (fst st1) < length (fst st) \<and> x \<in> set (liter f k st1))"
  by auto

lemma iter_self: "st \<in> set (iter f k st)"
  by (cases k) simp_all

lemma liter_self: "st \<in> set (liter f k st)"
  by (cases k) simp_all

lemma iter_mono: "set (iter f k st) \<subseteq> set (iter f (Suc k) st)"
proof (induction k arbitrary: st)
  case 0
  show ?case by simp
next
  case (Suc k)
  show ?case
  proof
    fix x assume "x \<in> set (iter f (Suc k) st)"
    then consider "x = st"
      | st1 where "st1 \<in> set (f st)" "length (fst st1) < length (fst st)" "x \<in> set (iter f k st1)"
      by auto
    then show "x \<in> set (iter f (Suc (Suc k)) st)"
    proof cases
      case 1
      then show ?thesis by (simp only: iter_self)
    next
      case 2
      from 2(3) Suc.IH have "x \<in> set (iter f (Suc k) st1)" by blast
      with 2(1,2) show ?thesis by (subst iter_Suc_mem) blast
    qed
  qed
qed

lemma iter_mono_le: "k \<le> k' \<Longrightarrow> set (iter f k st) \<subseteq> set (iter f k' st)"
proof (induction k' arbitrary: k)
  case 0
  then show ?case by simp
next
  case (Suc k')
  show ?case
  proof (cases "k = Suc k'")
    case True
    then show ?thesis by simp
  next
    case False
    with Suc.prems have "k \<le> k'" by simp
    from Suc.IH [OF this] iter_mono [of f k' st] show ?thesis by blast
  qed
qed

lemma liter_mono: "set (liter f k st) \<subseteq> set (liter f (Suc k) st)"
proof (induction k arbitrary: st)
  case 0
  show ?case by simp
next
  case (Suc k)
  show ?case
  proof
    fix x assume "x \<in> set (liter f (Suc k) st)"
    then consider "x = st"
      | st1 where "st1 \<in> set (f st)" "length (fst st1) < length (fst st)" "x \<in> set (liter f k st1)"
      by auto
    then show "x \<in> set (liter f (Suc (Suc k)) st)"
    proof cases
      case 1
      then show ?thesis by (simp only: liter_self)
    next
      case 2
      from 2(3) Suc.IH have "x \<in> set (liter f (Suc k) st1)" by blast
      with 2(1,2) show ?thesis by (subst liter_Suc_mem) blast
    qed
  qed
qed

lemma liter_mono_le: "k \<le> k' \<Longrightarrow> set (liter f k st) \<subseteq> set (liter f k' st)"
proof (induction k' arbitrary: k)
  case 0
  then show ?case by simp
next
  case (Suc k')
  show ?case
  proof (cases "k = Suc k'")
    case True
    then show ?thesis by simp
  next
    case False
    with Suc.prems have "k \<le> k'" by simp
    from Suc.IH [OF this] liter_mono [of f k' st] show ?thesis by blast
  qed
qed

lemma run_complete:
  "sem r u g \<Longrightarrow> anchor_free r \<Longrightarrow> \<exists>c'. (t', c') \<in> set (run n r (u @ t', c))"
proof (induction r u g arbitrary: t' c rule: sem.induct)
  case (sem_Cls p x)
  then show ?case by simp
next
  case sem_Eps
  show ?case by simp
next
  case (sem_Seq a u g b v h)
  from sem_Seq.prems have af: "anchor_free a" "anchor_free b" by simp_all
  from sem_Seq.IH(1) [OF af(1), of "v @ t'" c] obtain c1 where
    a: "(v @ t', c1) \<in> set (run n a (u @ v @ t', c))" by blast
  from sem_Seq.IH(2) [OF af(2), of t' c1] obtain c2 where
    b: "(t', c2) \<in> set (run n b (v @ t', c1))" by blast
  from a b show ?case by force
next
  case (sem_AltL a u g b)
  then show ?case by fastforce
next
  case (sem_AltR b u g a)
  then show ?case by fastforce
next
  case (sem_Star0 a)
  show ?case using iter_self by fastforce
next
  case (sem_StarS a u g v h)
  from sem_StarS.prems have af: "anchor_free a" by simp
  show ?case
  proof (cases "u = []")
    case True
    then show ?thesis using sem_StarS.IH(2) [OF sem_StarS.prems] by simp
  next
    case False
    from sem_StarS.IH(1) [OF af, of "v @ t'" c] obtain c1 where
      a: "(v @ t', c1) \<in> set (run n a (u @ v @ t', c))" by blast
    from sem_StarS.IH(2) [OF sem_StarS.prems, of t' c1] obtain c2 where
      b: "(t', c2) \<in> set (iter (run n a) (length (v @ t')) (v @ t', c1))" by auto
    from False obtain k where k: "length (u @ v @ t') = Suc k" "length (v @ t') \<le> k"
      by (cases u) auto
    from b k(2) iter_mono_le have "(t', c2) \<in> set (iter (run n a) k (v @ t', c1))" by blast
    with a False have "(t', c2) \<in> set (iter (run n a) (Suc k) (u @ v @ t', c))"
      by (subst iter_Suc_mem) force
    then show ?thesis using k(1) by auto
  qed
next
  case (sem_LStar0 a)
  show ?case using liter_self by fastforce
next
  case (sem_LStarS a u g v h)
  from sem_LStarS.prems have af: "anchor_free a" by simp
  show ?case
  proof (cases "u = []")
    case True
    then show ?thesis using sem_LStarS.IH(2) [OF sem_LStarS.prems] by simp
  next
    case False
    from sem_LStarS.IH(1) [OF af, of "v @ t'" c] obtain c1 where
      a: "(v @ t', c1) \<in> set (run n a (u @ v @ t', c))" by blast
    from sem_LStarS.IH(2) [OF sem_LStarS.prems, of t' c1] obtain c2 where
      b: "(t', c2) \<in> set (liter (run n a) (length (v @ t')) (v @ t', c1))" by auto
    from False obtain k where k: "length (u @ v @ t') = Suc k" "length (v @ t') \<le> k"
      by (cases u) auto
    from b k(2) liter_mono_le have "(t', c2) \<in> set (liter (run n a) k (v @ t', c1))" by blast
    with a False have "(t', c2) \<in> set (liter (run n a) (Suc k) (u @ v @ t', c))"
      by (subst liter_Suc_mem) force
    then show ?thesis using k(1) by auto
  qed
next
  case (sem_Grp a u g)
  from sem_Grp.prems have af: "anchor_free a" by simp
  from sem_Grp.IH [OF af, of t' c] obtain c1 where
    "(t', c1) \<in> set (run n a (u @ t', c))" by blast
  then show ?case by force
next
  case sem_Bol
  then show ?case by simp
next
  case sem_Eol
  then show ?case by simp
qed

inductive_simps sem_Cls_iff: "sem (Cls p) u g"

inductive_simps sem_Eps_iff: "sem Eps u g"

inductive_simps sem_Seq_iff: "sem (Seq a b) u g"

inductive_simps sem_Alt_iff: "sem (Alt a b) u g"

inductive_simps sem_Grp_iff: "sem (Grp a) u g"

inductive_simps sem_Bol_iff: "sem Bol u g"

inductive_simps sem_Eol_iff: "sem Eol u g"

lemma sem_Star_Cls_only: "sem r u g \<Longrightarrow> r = Star (Cls p) \<Longrightarrow> g = [] \<and> list_all p u"
  by (induction r u g rule: sem.induct) (auto simp: sem_Cls_iff)

lemma sem_Star_Cls_if: "list_all p u \<Longrightarrow> sem (Star (Cls p)) u []"
proof (induction u)
  case Nil
  show ?case by (rule sem_Star0)
next
  case (Cons x u)
  then have "sem (Cls p) [x] []" "sem (Star (Cls p)) u []" by (auto intro: sem_Cls)
  then have "sem (Star (Cls p)) ([x] @ u) ([] @ [])" by (rule sem_StarS)
  then show ?case by simp
qed

lemma sem_Star_Cls: "sem (Star (Cls p)) u g \<longleftrightarrow> g = [] \<and> list_all p u"
  using sem_Star_Cls_only sem_Star_Cls_if by blast

lemma sem_LStar_Cls_only: "sem r u g \<Longrightarrow> r = LStar (Cls p) \<Longrightarrow> g = [] \<and> list_all p u"
  by (induction r u g rule: sem.induct) (auto simp: sem_Cls_iff)

lemma sem_LStar_Cls_if: "list_all p u \<Longrightarrow> sem (LStar (Cls p)) u []"
proof (induction u)
  case Nil
  show ?case by (rule sem_LStar0)
next
  case (Cons x u)
  then have "sem (Cls p) [x] []" "sem (LStar (Cls p)) u []" by (auto intro: sem_Cls)
  then have "sem (LStar (Cls p)) ([x] @ u) ([] @ [])" by (rule sem_LStarS)
  then show ?case by simp
qed

lemma sem_LStar_Cls: "sem (LStar (Cls p)) u g \<longleftrightarrow> g = [] \<and> list_all p u"
  using sem_LStar_Cls_only sem_LStar_Cls_if by blast

lemma sem_SeqI:
  "sem a u g \<Longrightarrow> sem b v h \<Longrightarrow> w = u @ v \<Longrightarrow> k = g @ h \<Longrightarrow> sem (Seq a b) w k"
  using sem_Seq by blast

lemma sem_Plus_Cls:
  "sem (Plus (Cls p)) u g \<longleftrightarrow> g = [] \<and> u \<noteq> [] \<and> list_all p u"
proof
  assume "sem (Plus (Cls p)) u g"
  then show "g = [] \<and> u \<noteq> [] \<and> list_all p u"
    by (auto simp: Plus_def sem_Seq_iff sem_Cls_iff sem_Star_Cls)
next
  assume a: "g = [] \<and> u \<noteq> [] \<and> list_all p u"
  then obtain x v where u: "u = x # v" by (cases u) auto
  with a have "sem (Cls p) [x] []" "sem (Star (Cls p)) v []"
    by (auto simp: sem_Star_Cls intro: sem_Cls)
  then show "sem (Plus (Cls p)) u g"
    unfolding Plus_def using a u by (auto intro: sem_SeqI)
qed

lemma sem_LPlus_Cls:
  "sem (LPlus (Cls p)) u g \<longleftrightarrow> g = [] \<and> u \<noteq> [] \<and> list_all p u"
proof
  assume "sem (LPlus (Cls p)) u g"
  then show "g = [] \<and> u \<noteq> [] \<and> list_all p u"
    by (auto simp: LPlus_def sem_Seq_iff sem_Cls_iff sem_LStar_Cls)
next
  assume a: "g = [] \<and> u \<noteq> [] \<and> list_all p u"
  then obtain x v where u: "u = x # v" by (cases u) auto
  with a have "sem (Cls p) [x] []" "sem (LStar (Cls p)) v []"
    by (auto simp: sem_LStar_Cls intro: sem_Cls)
  then show "sem (LPlus (Cls p)) u g"
    unfolding LPlus_def using a u by (auto intro: sem_SeqI)
qed

lemma sem_Chr: "sem (Chr c) u g \<longleftrightarrow> u = [c] \<and> g = []"
  by (auto simp: Chr_def sem_Cls_iff)

lemma sem_Opt: "sem (Opt r) u g \<longleftrightarrow> sem r u g \<or> (u = [] \<and> g = [])"
  by (auto simp: Opt_def sem_Alt_iff sem_Eps_iff)

lemma sem_quantity_pattern_only:
  assumes "sem quantity_pattern u g"
  shows "\<exists>ws1 x ws2. u = ws1 @ x # ws2 @ ''$'' \<and> ws1 \<noteq> [] \<and> list_all is_space ws1 \<and>
           is_JlI x \<and> ws2 \<noteq> [] \<and> list_all is_space ws2 \<and> g = [[x]]"
proof -
  from assms obtain ws1 x ws2 where
    "u = ws1 @ [x] @ ws2 @ ''$''" "ws1 \<noteq> []" "list_all is_space ws1" "is_JlI x"
    "ws2 \<noteq> []" "list_all is_space ws2" "g = [[x]]"
    by (auto simp: quantity_pattern_def sem_Seq_iff sem_Plus_Cls sem_Grp_iff sem_Cls_iff
        sem_Chr sem_Eps_iff)
  then show ?thesis by auto
qed

lemma sem_quantity_pattern_if:
  assumes "ws1 \<noteq> []" "list_all is_space ws1" "is_JlI x" "ws2 \<noteq> []" "list_all is_space ws2"
  shows "sem quantity_pattern (ws1 @ x # ws2 @ ''$'') [[x]]"
proof -
  have 1: "sem (Plus (Cls is_space)) ws1 []" using assms by (simp add: sem_Plus_Cls)
  have "sem (Cls is_JlI) [x] []" using assms by (simp add: sem_Cls)
  then have 2: "sem (Grp (Cls is_JlI)) [x] ([] @ [[x]])" by (rule sem_Grp)
  have 3: "sem (Plus (Cls is_space)) ws2 []" using assms by (simp add: sem_Plus_Cls)
  have 4: "sem (Chr (CHR ''$'')) ''$'' []" by (simp add: sem_Chr)
  have 5: "sem (Seq (Chr (CHR ''$'')) Eps) ''$'' []"
    using 4 sem_Eps by (rule sem_SeqI) simp_all
  have 6: "sem (Seq (Plus (Cls is_space)) (Seq (Chr (CHR ''$'')) Eps)) (ws2 @ ''$'') []"
    using 3 5 by (rule sem_SeqI) simp_all
  have 7: "sem (Seq (Grp (Cls is_JlI)) (Seq (Plus (Cls is_space)) (Seq (Chr (CHR ''$'')) Eps)))
             (x # ws2 @ ''$'') [[x]]"
    using 2 6 by (rule sem_SeqI) simp_all
  show ?thesis
    unfolding quantity_pattern_def Seqs.simps using 1 7 by (rule sem_SeqI) simp_all
qed

lemma not_space_JlI: "is_JlI x \<Longrightarrow> \<not> is_space x"
  by (auto simp: is_JlI_def is_space_def)

lemma not_space_dollar: "\<not> is_space (CHR ''$'')"
  by (simp add: is_space_def)

lemma dropWhile_all: "list_all P ws \<Longrightarrow> dropWhile P (ws @ r) = dropWhile P r"
  by (induction ws) auto

lemma hit_decomp:
  assumes "ws1 \<noteq> []" "list_all is_space ws1" "is_JlI x" "ws2 \<noteq> []" "list_all is_space ws2"
  shows "hit (ws1 @ x # ws2 @ CHR ''$'' # t') \<and> after_hit (ws1 @ x # ws2 @ CHR ''$'' # t') = t'"
proof -
  have a: "dropWhile is_space (ws1 @ x # ws2 @ CHR ''$'' # t') = x # ws2 @ CHR ''$'' # t'"
    using assms by (simp add: dropWhile_all not_space_JlI)
  have b: "dropWhile is_space (ws2 @ CHR ''$'' # t') = CHR ''$'' # t'"
    using assms by (simp add: dropWhile_all not_space_dollar)
  obtain y1 r1 where w1: "ws1 = y1 # r1" "is_space y1" using assms by (cases ws1) auto
  obtain y2 r2 where w2: "ws2 = y2 # r2" "is_space y2" using assms by (cases ws2) auto
  have "gap_dollar (ws2 @ CHR ''$'' # t')"
    using w2 b by (simp add: gap_dollar_def dollar_next_def)
  then have "letter_next (ws1 @ x # ws2 @ CHR ''$'' # t')"
    using a assms by (simp add: letter_next_def)
  then have "hit (ws1 @ x # ws2 @ CHR ''$'' # t')"
    using w1 by (simp add: hit_def)
  moreover have "after_hit (ws1 @ x # ws2 @ CHR ''$'' # t') = t'"
    by (simp add: after_hit_def a b)
  ultimately show ?thesis by simp
qed

lemma takeWhile_nonempty: "t = y # r \<Longrightarrow> P y \<Longrightarrow> takeWhile P t \<noteq> []"
  by simp

lemma hit_only:
  assumes "hit t"
  shows "\<exists>ws1 x ws2 t'. t = ws1 @ x # ws2 @ CHR ''$'' # t' \<and> ws1 \<noteq> [] \<and>
           list_all is_space ws1 \<and> is_JlI x \<and> ws2 \<noteq> [] \<and> list_all is_space ws2"
proof -
  from assms obtain y r where t: "t = y # r" "is_space y" "letter_next t"
    by (auto simp: hit_def split: list.splits)
  from t(3) obtain x r1 where d1: "dropWhile is_space t = x # r1" "is_JlI x" "gap_dollar r1"
    by (auto simp: letter_next_def split: list.splits)
  from d1(3) obtain y2 r2 where r1: "r1 = y2 # r2" "is_space y2" "dollar_next r1"
    by (auto simp: gap_dollar_def split: list.splits)
  from r1(3) obtain t' where d2: "dropWhile is_space r1 = CHR ''$'' # t'"
    by (auto simp: dollar_next_def split: list.splits)
  let ?ws1 = "takeWhile is_space t" and ?ws2 = "takeWhile is_space r1"
  have "t = ?ws1 @ dropWhile is_space t" by simp
  also have "\<dots> = ?ws1 @ x # r1" by (simp only: d1(1))
  also have "r1 = ?ws2 @ dropWhile is_space r1" by simp
  also have "\<dots> = ?ws2 @ CHR ''$'' # t'" by (simp only: d2)
  finally have "t = ?ws1 @ x # ?ws2 @ CHR ''$'' # t'" .
  moreover have "?ws1 \<noteq> []" using t by simp
  moreover have "?ws2 \<noteq> []" using r1 by simp
  moreover have "list_all is_space ?ws1" "list_all is_space ?ws2"
    by (simp_all add: list_all_iff) (meson set_takeWhileD)+
  ultimately show ?thesis using d1(2) by blast
qed

lemma first_match_quantity_None:
  "first_match n quantity_pattern t = None \<longleftrightarrow> \<not> hit t"
proof
  assume a: "first_match n quantity_pattern t = None"
  show "\<not> hit t"
  proof
    assume "hit t"
    from hit_only [OF this] obtain ws1 x ws2 t' where
      d: "t = ws1 @ x # ws2 @ CHR ''$'' # t'" "ws1 \<noteq> []" "list_all is_space ws1" "is_JlI x"
         "ws2 \<noteq> []" "list_all is_space ws2" by blast
    have "sem quantity_pattern (ws1 @ x # ws2 @ ''$'') [[x]]"
      using d(2-6) by (rule sem_quantity_pattern_if)
    moreover have "anchor_free quantity_pattern"
      by (simp add: quantity_pattern_def Plus_def Chr_def)
    ultimately obtain c' where
      "(t', c') \<in> set (run n quantity_pattern ((ws1 @ x # ws2 @ ''$'') @ t', []))"
      using run_complete by blast
    then have "run n quantity_pattern (t, []) \<noteq> []" using d(1) by auto
    with a show False by (simp add: first_match_def split: list.splits)
  qed
next
  assume a: "\<not> hit t"
  show "first_match n quantity_pattern t = None"
  proof (cases "run n quantity_pattern (t, [])")
    case Nil
    then show ?thesis by (simp add: first_match_def)
  next
    case (Cons st rest)
    then have "st \<in> set (run n quantity_pattern (t, []))" by simp
    from run_sound [OF this] obtain u g where
      s: "sem quantity_pattern u g" "t = u @ fst st" by auto
    from sem_quantity_pattern_only [OF s(1)] obtain ws1 x ws2 where
      d: "u = ws1 @ x # ws2 @ ''$''" "ws1 \<noteq> []" "list_all is_space ws1" "is_JlI x"
         "ws2 \<noteq> []" "list_all is_space ws2" by blast
    have "hit (ws1 @ x # ws2 @ CHR ''$'' # fst st)"
      using hit_decomp [OF d(2-6)] by blast
    with a s(2) d(1) show ?thesis by simp
  qed
qed

lemma first_match_quantity_Some:
  assumes "first_match n quantity_pattern t = Some (t', g)"
  shows "hit t \<and> t' = after_hit t \<and> length t' < length t"
proof -
  from assms have "(t', g) \<in> set (run n quantity_pattern (t, []))"
    by (auto simp: first_match_def split: list.splits)
  from run_sound [OF this] obtain u g' where
    s: "sem quantity_pattern u g'" "t = u @ t'" by auto
  from sem_quantity_pattern_only [OF s(1)] obtain ws1 x ws2 where
    d: "u = ws1 @ x # ws2 @ ''$''" "ws1 \<noteq> []" "list_all is_space ws1" "is_JlI x"
       "ws2 \<noteq> []" "list_all is_space ws2" by blast
  have "hit (ws1 @ x # ws2 @ CHR ''$'' # t') \<and> after_hit (ws1 @ x # ws2 @ CHR ''$'' # t') = t'"
    using hit_decomp [OF d(2-6)] by blast
  moreover have "t = ws1 @ x # ws2 @ CHR ''$'' # t'" using s(2) d(1) by simp
  ultimately show ?thesis by simp
qed

lemma sub_quantity_Cons:
  "sub_at n quantity_pattern repl (x # t) =
     (if hit (x # t) then repl @ sub_at n quantity_pattern repl (after_hit (x # t))
      else x # sub_at n quantity_pattern repl t)"
proof (cases "first_match n quantity_pattern (x # t)")
  case None
  then show ?thesis using first_match_quantity_None [of n "x # t"] by simp
next
  case (Some st)
  obtain t' g where st: "st = (t', g)" by (cases st)
  have "first_match n quantity_pattern (x # t) = Some (t', g)" using Some st by simp
  from first_match_quantity_Some [OF this]
  have h: "hit (x # t) \<and> t' = after_hit (x # t) \<and> length t' < length (x # t)" .
  then have "length (after_hit (x # t)) < Suc (length t)" by auto
  moreover have "first_match n quantity_pattern (x # t) = Some (after_hit (x # t), g)"
    using Some st h by simp
  ultimately show ?thesis using h by simp
qed

lemma dollar_next_Nil: "\<not> dollar_next []"
  by (simp add: dollar_next_def)

lemma dollar_next_Cons:
  "dollar_next (x # u) = (if is_space x then dollar_next u else x = CHR ''$'')"
  by (simp add: dollar_next_def)

lemma gap_dollar_Nil: "\<not> gap_dollar []"
  by (simp add: gap_dollar_def)

lemma gap_dollar_Cons: "gap_dollar (x # u) = (is_space x \<and> dollar_next u)"
  by (auto simp: gap_dollar_def dollar_next_Cons)

lemma letter_next_Nil: "\<not> letter_next []"
  by (simp add: letter_next_def)

lemma letter_next_Cons:
  "letter_next (x # u) = (if is_space x then letter_next u else is_JlI x \<and> gap_dollar u)"
  by (simp add: letter_next_def)

lemma hit_Nil: "\<not> hit []"
  by (simp add: hit_def)

lemma hit_Cons: "hit (x # u) = (is_space x \<and> letter_next u)"
  by (auto simp: hit_def letter_next_Cons)

lemmas scan_simps = dollar_next_Nil dollar_next_Cons gap_dollar_Nil gap_dollar_Cons
  letter_next_Nil letter_next_Cons hit_Nil hit_Cons

lemma fixq_Nil: "fixq [] = []"
  by (simp add: fixq_def)

lemma fixq_Cons:
  "fixq (x # t) = (if hit (x # t) then '' 1 $'' @ fixq (after_hit (x # t)) else x # fixq t)"
  unfolding fixq_def by (rule sub_quantity_Cons)

lemma after_hit_shorter: "hit t \<Longrightarrow> length (after_hit t) < length t"
proof -
  assume "hit t"
  from hit_only [OF this] obtain ws1 x ws2 t' where
    d: "t = ws1 @ x # ws2 @ CHR ''$'' # t'" "ws1 \<noteq> []" "list_all is_space ws1" "is_JlI x"
       "ws2 \<noteq> []" "list_all is_space ws2" by blast
  from hit_decomp [OF d(2-6), of t'] d(1) have "after_hit t = t'" by simp
  with d(1) show ?thesis by simp
qed

lemma sub_at_fixq: "sub_at n quantity_pattern '' 1 $'' t = fixq t"
proof (induction t rule: length_induct)
  case (1 t)
  show ?case
  proof (cases t)
    case Nil
    then show ?thesis by (simp add: fixq_Nil)
  next
    case (Cons x r)
    show ?thesis
    proof (cases "hit (x # r)")
      case True
      then have "length (after_hit (x # r)) < length t" using after_hit_shorter Cons by blast
      with 1 have "sub_at n quantity_pattern '' 1 $'' (after_hit (x # r)) = fixq (after_hit (x # r))"
        by blast
      with True Cons show ?thesis by (simp only: sub_quantity_Cons fixq_Cons if_True)
    next
      case False
      have "length r < length t" using Cons by simp
      with 1 have "sub_at n quantity_pattern '' 1 $'' r = fixq r" by blast
      with False Cons show ?thesis by (simp only: sub_quantity_Cons fixq_Cons if_False)
    qed
  qed
qed

lemma one_not_space: "\<not> is_space (CHR ''1'')" "\<not> is_JlI (CHR ''1'')"
  "\<not> is_JlI (CHR ''$'')" "is_space (CHR '' '')" "\<not> is_space (CHR ''$'')"
  by (simp_all add: is_space_def is_JlI_def)

lemma fixq_back:
  "(letter_next (fixq t) \<longrightarrow> letter_next t) \<and> (gap_dollar (fixq t) \<longrightarrow> gap_dollar t) \<and>
   (dollar_next (fixq t) \<longrightarrow> dollar_next t)"
proof (induction t)
  case Nil
  show ?case by (simp add: fixq_Nil scan_simps)
next
  case (Cons x t)
  show ?case
  proof (cases "hit (x # t)")
    case True
    then have "fixq (x # t) = '' 1 $'' @ fixq (after_hit (x # t))" by (simp only: fixq_Cons if_True)
    then show ?thesis by (simp add: scan_simps one_not_space)
  next
    case False
    then have "fixq (x # t) = x # fixq t" by (simp only: fixq_Cons if_False)
    then show ?thesis using Cons by (simp add: scan_simps)
  qed
qed

lemma fixq_no_hit: "\<not> hit (fixq t)"
proof (cases t)
  case Nil
  then show ?thesis by (simp add: fixq_Nil scan_simps)
next
  case (Cons x r)
  show ?thesis
  proof (cases "hit (x # r)")
    case True
    then have "fixq (x # r) = '' 1 $'' @ fixq (after_hit (x # r))" by (simp only: fixq_Cons if_True)
    then show ?thesis using Cons by (simp add: scan_simps one_not_space)
  next
    case False
    then have e: "fixq (x # r) = x # fixq r" by (simp only: fixq_Cons if_False)
    show ?thesis
    proof
      assume "hit (fixq t)"
      then have "is_space x \<and> letter_next (fixq r)" using e Cons by (simp add: hit_Cons)
      then have "is_space x \<and> letter_next r" using fixq_back [of r] by blast
      then have "hit (x # r)" by (simp add: hit_Cons)
      with False show False by simp
    qed
  qed
qed

lemma no_hits_Nil: "no_hits []"
  by (simp add: no_hits_def hit_Nil)

lemma no_hits_Cons: "no_hits (x # u) \<longleftrightarrow> \<not> hit (x # u) \<and> no_hits u"
proof
  assume a: "no_hits (x # u)"
  then have "\<not> hit (drop 0 (x # u))" unfolding no_hits_def by blast
  moreover have "\<not> hit (drop k u)" for k
    using a [unfolded no_hits_def, rule_format, of "Suc k"] by simp
  ultimately show "\<not> hit (x # u) \<and> no_hits u" by (simp add: no_hits_def)
next
  assume a: "\<not> hit (x # u) \<and> no_hits u"
  show "no_hits (x # u)"
    unfolding no_hits_def
  proof
    fix k show "\<not> hit (drop k (x # u))"
      using a by (cases k) (simp_all add: no_hits_def)
  qed
qed

lemma fixq_no_hits: "no_hits (fixq t)"
proof (induction t rule: length_induct)
  case (1 t)
  show ?case
  proof (cases t)
    case Nil
    then show ?thesis by (simp add: fixq_Nil no_hits_Nil)
  next
    case (Cons x r)
    show ?thesis
    proof (cases "hit (x # r)")
      case True
      then have e: "fixq t = '' 1 $'' @ fixq (after_hit (x # r))"
        using Cons by (simp only: fixq_Cons if_True)
      have "length (after_hit (x # r)) < length t" using True after_hit_shorter Cons by blast
      with 1 have "no_hits (fixq (after_hit (x # r)))" by blast
      then show ?thesis
        unfolding e by (simp add: no_hits_Cons scan_simps one_not_space)
    next
      case False
      then have e: "fixq t = x # fixq r" using Cons by (simp only: fixq_Cons if_False)
      have "length r < length t" using Cons by simp
      with 1 have "no_hits (fixq r)" by blast
      moreover have "\<not> hit (x # fixq r)" using fixq_no_hit [of t] e by simp
      ultimately show ?thesis unfolding e by (simp add: no_hits_Cons)
    qed
  qed
qed

lemma fixq_id: "no_hits u \<Longrightarrow> fixq u = u"
proof (induction u)
  case Nil
  show ?case by (rule fixq_Nil)
next
  case (Cons x u)
  then have "\<not> hit (x # u)" "no_hits u" by (simp_all add: no_hits_Cons)
  with Cons.IH show ?case by (simp add: fixq_Cons)
qed

lemma fixq_idem: "fixq (fixq t) = fixq t"
  using fixq_no_hits fixq_id by blast

lemma replace_O: "replace_char (CHR ''O'') ''0'' s = map o_to_zero s"
  by (induction s) (simp_all add: replace_char_def o_to_zero_def)

lemma replace_O_fun: "replace_char (CHR ''O'') ''0'' = map o_to_zero"
  by (rule ext) (rule replace_O)

lemma split_on_nonempty: "split_on c s \<noteq> []"
  by (induction s) (auto split: list.splits)

lemma join_with_Cons_Cons: "join_with sep ((x # l) # L) = x # join_with sep (l # L)"
  by (cases L) simp_all

lemma join_with_Nil_Cons: "L \<noteq> [] \<Longrightarrow> join_with sep ([] # L) = sep @ join_with sep L"
  by (cases L) simp_all

lemma join_map_split:
  "h c = c \<Longrightarrow> join_with [c] (map (map h) (split_on c s)) = map h s"
proof (induction s)
  case Nil
  show ?case by simp
next
  case (Cons x xs)
  show ?case
  proof (cases "x = c")
    case True
    then show ?thesis
      using Cons split_on_nonempty [of c xs] by (simp add: join_with_Nil_Cons)
  next
    case False
    obtain l ls where s: "split_on c xs = l # ls"
      using split_on_nonempty [of c xs] by (cases "split_on c xs") auto
    with False Cons show ?thesis by (simp add: join_with_Cons_Cons)
  qed
qed

lemma join_split: "join_with [c] (split_on c s) = s"
  using join_map_split [of id c s] by simp

lemma o_to_zero_dollar: "o_to_zero (CHR ''$'') = CHR ''$''"
  by (simp add: o_to_zero_def)

lemma o_step_eq: "o_step v = o_fix v"
proof (induction v)
  case Nil
  show ?case by (simp add: o_step_def o_fix_def)
next
  case (Cons x xs)
  obtain l ls where s: "split_on (CHR ''$'') xs = l # ls"
    using split_on_nonempty [of "CHR ''$''" xs] by (cases "split_on (CHR ''$'') xs") auto
  show ?case
  proof (cases "x = CHR ''$''")
    case True
    have "join_with ''$'' (map (map o_to_zero) (split_on (CHR ''$'') xs)) = map o_to_zero xs"
      using join_map_split [of o_to_zero "CHR ''$''" xs] by (simp add: o_to_zero_dollar)
    then show ?thesis
      using True s
      by (simp add: o_step_def o_fix_def replace_O_fun o_to_zero_dollar join_with_Nil_Cons
          del: join_with.simps)
  next
    case False
    have "o_step (x # xs) = x # o_step xs"
      using False s by (simp add: o_step_def Let_def join_with_Cons_Cons)
    then show ?thesis using False Cons by (simp add: o_fix_def)
  qed
qed

lemma o_to_zero_idem: "o_to_zero (o_to_zero c) = o_to_zero c"
  by (simp add: o_to_zero_def)

lemma o_fix_idem: "o_fix (o_fix v) = o_fix v"
proof (cases "dropWhile (\<lambda>c. c \<noteq> CHR ''$'') v")
  case Nil
  then have tw: "takeWhile (\<lambda>c. c \<noteq> CHR ''$'') v = v"
    by simp
  have "o_fix v = v" unfolding o_fix_def by (simp only: Nil tw list.map append_Nil2)
  then show ?thesis by simp
next
  case (Cons y r)
  then have y: "y = CHR ''$''" using hd_dropWhile [of "\<lambda>c. c \<noteq> CHR ''$''" v] by auto
  let ?a = "takeWhile (\<lambda>c. c \<noteq> CHR ''$'') v"
  have e: "o_fix v = ?a @ CHR ''$'' # map o_to_zero r"
    by (simp add: o_fix_def Cons y o_to_zero_dollar)
  have t: "takeWhile (\<lambda>c. c \<noteq> CHR ''$'') (?a @ CHR ''$'' # map o_to_zero r) = ?a"
    by (simp add: takeWhile_tail)
  have "\<forall>c \<in> set ?a. c \<noteq> CHR ''$''" using set_takeWhileD by fastforce
  then have d: "dropWhile (\<lambda>c. c \<noteq> CHR ''$'') (?a @ CHR ''$'' # map o_to_zero r) =
                  CHR ''$'' # map o_to_zero r"
    by (simp add: dropWhile_append3)
  show ?thesis
    unfolding e unfolding o_fix_def t d
    by (simp add: o_to_zero_dollar o_to_zero_idem)
qed

lemma scan_cong:
  "list_all2 same_class u u' \<Longrightarrow>
     dollar_next u = dollar_next u' \<and> gap_dollar u = gap_dollar u' \<and>
     letter_next u = letter_next u' \<and> hit u = hit u'"
proof (induction rule: list_all2_induct)
  case Nil
  show ?case by simp
next
  case (Cons x xs y ys)
  then show ?case by (simp add: scan_simps same_class_def)
qed

lemma same_class_o_to_zero: "same_class c (o_to_zero c)"
  by (simp add: same_class_def o_to_zero_def is_space_def is_JlI_def)

lemma same_class_refl: "same_class c c"
  by (simp add: same_class_def)

lemma o_fix_same_class: "list_all2 same_class v (o_fix v)"
proof -
  let ?P = "\<lambda>c. c \<noteq> CHR ''$''"
  have "list_all2 same_class (takeWhile ?P v) (takeWhile ?P v)"
    by (simp add: list_all2_conv_all_nth same_class_refl)
  moreover have "list_all2 same_class (dropWhile ?P v) (map o_to_zero (dropWhile ?P v))"
    by (simp add: list_all2_conv_all_nth same_class_o_to_zero)
  ultimately have "list_all2 same_class (takeWhile ?P v @ dropWhile ?P v) (o_fix v)"
    unfolding o_fix_def by (rule list_all2_appendI)
  then show ?thesis by simp
qed

lemma o_fix_no_hits: "no_hits v \<Longrightarrow> no_hits (o_fix v)"
proof -
  assume a: "no_hits v"
  have "hit (drop k (o_fix v)) = hit (drop k v)" for k
  proof -
    have "list_all2 same_class (drop k v) (drop k (o_fix v))"
      using o_fix_same_class by (rule list_all2_dropI)
    then show ?thesis using scan_cong by blast
  qed
  with a show ?thesis by (simp add: no_hits_def)
qed

lemma normalize_line_eq:
  "normalize_line line =
     (if CHR ''$'' \<in> set line \<and> \<not> startswith line ''Total'' then o_fix (fixq line) else line)"
proof -
  have "re_sub quantity_pattern '' 1 $'' line = fixq line"
    by (simp add: re_sub_def sub_at_fixq)
  then show ?thesis
    using o_step_eq [of "fixq line"] by (simp add: normalize_line_def o_step_def Let_def)
qed

lemma normalize_line_idem: "normalize_line (normalize_line line) = normalize_line line"
proof (cases "CHR ''$'' \<in> set line \<and> \<not> startswith line ''Total''")
  case False
  then have "normalize_line line = line" by (auto simp: normalize_line_eq)
  then show ?thesis by simp
next
  case True
  then have e: "normalize_line line = o_fix (fixq line)" by (simp add: normalize_line_eq)
  have "no_hits (o_fix (fixq line))" using fixq_no_hits o_fix_no_hits by blast
  then have "fixq (o_fix (fixq line)) = o_fix (fixq line)" by (rule fixq_id)
  then have "o_fix (fixq (o_fix (fixq line))) = o_fix (fixq line)" by (simp add: o_fix_idem)
  then show ?thesis unfolding e by (simp add: normalize_line_eq)
qed

lemma split_on_no_sep: "c \<notin> set l \<Longrightarrow> split_on c l = [l]"
  by (induction l) auto

lemma split_on_append_sep:
  "c \<notin> set l \<Longrightarrow> split_on c (l @ c # rest) = l # split_on c rest"
  by (induction l) auto

lemma split_join:
  "ls \<noteq> [] \<Longrightarrow> \<forall>l \<in> set ls. c \<notin> set l \<Longrightarrow> split_on c (join_with [c] ls) = ls"
proof (induction "[c]" ls rule: join_with.induct)
  case 1
  then show ?case by simp
next
  case (2 l)
  then show ?case by (simp add: split_on_no_sep)
next
  case (3 l l' ls)
  then show ?case by (simp add: split_on_append_sep)
qed

lemma split_on_parts_no_sep: "l \<in> set (split_on c s) \<Longrightarrow> c \<notin> set l"
proof (induction s arbitrary: l)
  case Nil
  then show ?case by simp
next
  case (Cons x xs)
  obtain p ps where s: "split_on c xs = p # ps"
    using split_on_nonempty [of c xs] by (cases "split_on c xs") auto
  show ?case
  proof (cases "x = c")
    case True
    with Cons show ?thesis by auto
  next
    case False
    with Cons.prems s have "l = x # p \<or> l \<in> set ps" by simp
    moreover have "c \<notin> set p" "\<forall>q \<in> set ps. c \<notin> set q" using Cons.IH s by simp_all
    ultimately show ?thesis using False by auto
  qed
qed

lemma set_after_hit: "set (after_hit t) \<subseteq> set t"
proof -
  have "set (after_hit t) \<subseteq> set (dropWhile is_space (tl (dropWhile is_space t)))"
    unfolding after_hit_def by (metis list.set_sel(2) subsetI tl_Nil)
  also have "\<dots> \<subseteq> set (tl (dropWhile is_space t))" using set_dropWhileD by fastforce
  also have "\<dots> \<subseteq> set (dropWhile is_space t)" by (metis list.set_sel(2) subsetI tl_Nil)
  also have "\<dots> \<subseteq> set t" using set_dropWhileD by fastforce
  finally show ?thesis .
qed

lemma set_fixq: "set (fixq t) \<subseteq> set t \<union> set '' 1 $''"
proof (induction t rule: length_induct)
  case (1 t)
  show ?case
  proof (cases t)
    case Nil
    then show ?thesis by (simp add: fixq_Nil)
  next
    case (Cons x r)
    show ?thesis
    proof (cases "hit (x # r)")
      case True
      then have e: "fixq t = '' 1 $'' @ fixq (after_hit t)"
        using Cons by (simp only: fixq_Cons if_True)
      have "length (after_hit t) < length t" using True after_hit_shorter Cons by blast
      with 1 have "set (fixq (after_hit t)) \<subseteq> set (after_hit t) \<union> set '' 1 $''" by blast
      with set_after_hit [of t] show ?thesis unfolding e by auto
    next
      case False
      then have e: "fixq t = x # fixq r" using Cons by (simp only: fixq_Cons if_False)
      have "length r < length t" using Cons by simp
      with 1 have "set (fixq r) \<subseteq> set r \<union> set '' 1 $''" by blast
      then show ?thesis unfolding e using Cons by auto
    qed
  qed
qed

lemma set_o_fix: "set (o_fix v) \<subseteq> set v \<union> {CHR ''0''}"
proof -
  have "set (map o_to_zero u) \<subseteq> set u \<union> {CHR ''0''}" for u
    by (auto simp: o_to_zero_def)
  moreover have "set (takeWhile (\<lambda>c. c \<noteq> CHR ''$'') v) \<subseteq> set v" using set_takeWhileD by fastforce
  moreover have "set (dropWhile (\<lambda>c. c \<noteq> CHR ''$'') v) \<subseteq> set v" using set_dropWhileD by fastforce
  ultimately show ?thesis unfolding o_fix_def by fastforce
qed

lemma normalize_line_no_newline:
  assumes "newline \<notin> set line"
  shows "newline \<notin> set (normalize_line line)"
proof -
  have "newline \<notin> set '' 1 $''" "newline \<noteq> CHR ''0''" by (simp_all add: newline_def)
  with assms set_fixq [of line] have "newline \<notin> set (fixq line)" by auto
  with set_o_fix [of "fixq line"] \<open>newline \<noteq> CHR ''0''\<close>
  have "newline \<notin> set (o_fix (fixq line))" by auto
  with assms show ?thesis by (simp add: normalize_line_eq)
qed

lemma normalize_idem: "normalize_ocr_errors (normalize_ocr_errors text) = normalize_ocr_errors text"
proof -
  let ?ls = "map normalize_line (split_on newline text)"
  have ne: "?ls \<noteq> []" using split_on_nonempty by simp
  have "\<forall>l \<in> set ?ls. newline \<notin> set l"
    using split_on_parts_no_sep normalize_line_no_newline by auto
  with ne have "split_on newline (join_with [newline] ?ls) = ?ls" by (rule split_join)
  moreover have "map normalize_line ?ls = ?ls" by (simp add: normalize_line_idem)
  ultimately show ?thesis by (simp only: normalize_ocr_errors_def)
qed

text \<open>
  C7.  The normalizer is idempotent: normalizing a normalized text changes nothing.  On a
  corrected line neither the substitution of \<open>1\<close> (\<open>fixq_no_hits\<close>) nor the
  replacement of \<open>O\<close> (\<open>o_fix_idem\<close>) finds anything to do.
\<close>

theorem normalize_idempotent:
  "normalize_ocr_errors (normalize_ocr_errors text) = normalize_ocr_errors text"
  by (rule normalize_idem)

theorem normalize_idempotent_witness:
  "normalize_ocr_errors ''Sub J $15O.OO'' = ''Sub 1 $150.00'' \<and>
   normalize_ocr_errors ''Sub 1 $150.00'' = ''Sub 1 $150.00''"
proof -
  have a: "normalize_ocr_errors ''Sub J $15O.OO'' = ''Sub 1 $150.00''"
    by code_simp
  show ?thesis using normalize_idempotent [of "''Sub J $15O.OO''"] a by simp
qed

section \<open>Properties of the field extractor\<close>

lemma sem_email:
  assumes "sem email_pattern u g"
  shows "g = [u] \<and> CHR ''@'' \<in> set u \<and> CHR ''.'' \<in> set u"
  using assms
  by (auto simp: email_pattern_def sem_Grp_iff sem_Seq_iff sem_Plus_Cls sem_Chr sem_Eps_iff
      sem_Star_Cls sem_Cls_iff numeral_2_eq_2)

lemma findall_at_sound:
  "g \<in> set (findall_at n r t) \<Longrightarrow> \<exists>t1 t'. (t', g) \<in> set (run n r (t1, []))"
proof (induction n r t rule: findall_at.induct)
  case (1 n r)
  then show ?case by simp
next
  case (2 n r x t)
  show ?case
  proof (cases "first_match n r (x # t)")
    case None
    with 2 show ?thesis by simp
  next
    case (Some st)
    obtain t' g' where st: "st = (t', g')" by (cases st)
    have m: "(t', g') \<in> set (run n r (x # t, []))"
      using Some st by (auto simp: first_match_def split: list.splits)
    show ?thesis
    proof (cases "length t' < length (x # t)")
      case True
      with 2(4) Some st have "g = g' \<or> g \<in> set (findall_at n r t')" by simp
      then show ?thesis
      proof
        assume "g = g'"
        with m show ?thesis by blast
      next
        assume "g \<in> set (findall_at n r t')"
        with 2(2) [OF Some st [symmetric] True] show ?thesis by blast
      qed
    next
      case False
      with 2(4) Some st have "g \<in> set (findall_at n r t)" by simp
      with 2(3) [OF Some st [symmetric] False] show ?thesis by blast
    qed
  qed
qed

lemma find_email_shape:
  assumes "find_email text = Some e"
  shows "CHR ''@'' \<in> set e \<and> CHR ''.'' \<in> set e"
proof -
  from assms have "e \<in> set (map (\<lambda>g. case g of [] \<Rightarrow> [] | e # _ \<Rightarrow> e)
                              (re_findall email_pattern text))"
    unfolding find_email_def by (metis find_Some_iff nth_mem)
  then obtain g where g: "g \<in> set (re_findall email_pattern text)"
    "e = (case g of [] \<Rightarrow> [] | e # _ \<Rightarrow> e)" by auto
  from g(1) obtain t1 t' where "(t', g) \<in> set (run (length text) email_pattern (t1, []))"
    unfolding re_findall_def using findall_at_sound by blast
  from run_sound [OF this] obtain u g' where "sem email_pattern u g'" "g = g'" by auto
  with sem_email have "g = [u]" "CHR ''@'' \<in> set u \<and> CHR ''.'' \<in> set u" by blast+
  with g(2) show ?thesis by simp
qed

lemma extract_email:
  "extract_receipt_fields_v3 text = Inr d \<Longrightarrow>
     email (bill_to d) = find_email (normalize_ocr_errors text)"
  by (auto simp: extract_receipt_fields_v3_def Let_def split: sum.splits)

lemma pow2_pos: "0 < pow2 k"
  by (simp add: pow2_def)

lemma round_half_even_nonneg: "0 \<le> x \<Longrightarrow> 0 \<le> round_half_even x"
proof -
  assume "0 \<le> x"
  then have "0 \<le> \<lfloor>x\<rfloor>" by simp
  then show ?thesis by (simp add: round_half_even_def Let_def)
qed

lemma round_double_nonneg: "0 \<le> x \<Longrightarrow> fle (Fin 0) (round_double x)"
proof (cases "x = 0")
  case True
  then show ?thesis by (simp add: round_double_def fle_def)
next
  case False
  assume "0 \<le> x"
  with False have x: "0 < x" by simp
  let ?q = "pow2 (max (ilog2 \<bar>x\<bar>) (- 1022) - 52)"
  have "0 \<le> \<bar>x\<bar> / ?q" using pow2_pos [of "max (ilog2 \<bar>x\<bar>) (- 1022) - 52"] by simp
  then have "0 \<le> round_half_even (\<bar>x\<bar> / ?q)" by (rule round_half_even_nonneg)
  then have "0 \<le> of_int (round_half_even (\<bar>x\<bar> / ?q)) * ?q"
    using pow2_pos [of "max (ilog2 \<bar>x\<bar>) (- 1022) - 52"] by simp
  then show ?thesis using x by (auto simp: round_double_def Let_def fle_def)
qed

lemma py_float_nonneg: "py_float s = Inr u \<Longrightarrow> fle (Fin 0) u"
  unfolding py_float_def Let_def
  by (auto split: list.splits if_splits intro!: round_double_nonneg)

lemma py_int_nonneg: "py_int s = Inr q \<Longrightarrow> 0 \<le> q"
  by (auto simp: py_int_def split: if_splits)

lemma strip_hd: "strip s \<noteq> [] \<Longrightarrow> \<not> is_space (hd (strip s))"
proof -
  assume a: "strip s \<noteq> []"
  let ?a = "dropWhile is_space s"
  let ?b = "dropWhile is_space (rev ?a)"
  have b: "?b \<noteq> []" using a by (simp add: strip_def)
  have "rev ?a = takeWhile is_space (rev ?a) @ ?b" by simp
  then have "rev (rev ?a) = rev ?b @ rev (takeWhile is_space (rev ?a))"
    by (metis rev_append)
  then have e: "?a = strip s @ rev (takeWhile is_space (rev ?a))"
    by (simp add: strip_def)
  from a e have "hd ?a = hd (strip s)" by (metis hd_append2)
  moreover have "?a \<noteq> []" using a e by (metis Nil_is_append_conv)
  then have "\<not> is_space (hd ?a)" by (rule hd_dropWhile)
  ultimately show ?thesis by simp
qed

lemma strip_nonempty: "s \<noteq> [] \<Longrightarrow> \<not> is_space (hd s) \<Longrightarrow> strip s \<noteq> []"
proof -
  assume a: "s \<noteq> []" "\<not> is_space (hd s)"
  then have d: "dropWhile is_space s = s" by (cases s) auto
  have "hd s \<in> set (rev s)" using a by simp
  with a(2) have "dropWhile is_space (rev s) \<noteq> []"
    by auto
  then show ?thesis by (simp add: strip_def d)
qed

lemma sem_Times2_Cls:
  "sem (Times 2 (Cls p)) u g \<Longrightarrow> \<exists>b c. u = [b, c] \<and> p b \<and> p c \<and> g = []"
  by (auto simp: numeral_2_eq_2 sem_Seq_iff sem_Cls_iff sem_Eps_iff)

lemma sem_SeqsE:
  assumes "sem (Seqs (r # rs)) u g"
  obtains u1 g1 u2 g2 where "u = u1 @ u2" "g = g1 @ g2" "sem r u1 g1" "sem (Seqs rs) u2 g2"
  using assms by (auto simp: sem_Seq_iff)

lemma sem_Seqs_Nil: "sem (Seqs []) u g \<Longrightarrow> u = [] \<and> g = []"
  by (simp add: sem_Eps_iff)

lemma sem_price: "sem price u g \<Longrightarrow> is_price u \<and> g = []"
proof -
  assume "sem price u g"
  then obtain a ga r1 k1 where
    1: "u = a @ r1" "g = ga @ k1" "sem (Plus (Cls is_digit)) a ga"
       "sem (Seqs [Chr (CHR ''.''), Times 2 (Cls is_digit)]) r1 k1"
    unfolding price_def by (rule sem_SeqsE)
  from 1(4) obtain d gd r2 k2 where
    2: "r1 = d @ r2" "k1 = gd @ k2" "sem (Chr (CHR ''.'')) d gd"
       "sem (Seqs [Times 2 (Cls is_digit)]) r2 k2"
    by (rule sem_SeqsE)
  from 2(4) obtain e ge r3 k3 where
    3: "r2 = e @ r3" "k2 = ge @ k3" "sem (Times 2 (Cls is_digit)) e ge" "sem (Seqs []) r3 k3"
    by (rule sem_SeqsE)
  from sem_Times2_Cls [OF 3(3)] obtain b c where
    e: "e = [b, c]" "is_digit b" "is_digit c" "ge = []" by blast
  have "u = a @ [CHR ''.'', b, c]"
    using 1(1) 2(1,3) 3(1) e(1) sem_Seqs_Nil [OF 3(4)] by (simp add: sem_Chr)
  moreover have "a \<noteq> []" "list_all is_digit a" "ga = []" using 1(3) by (simp_all add: sem_Plus_Cls)
  moreover have "g = []"
    using 1(2) 2(2,3) 3(2) e(4) sem_Seqs_Nil [OF 3(4)] \<open>ga = []\<close> by (simp add: sem_Chr)
  ultimately show ?thesis using e(2,3) unfolding is_price_def by blast
qed

lemma sem_Grp_price: "sem (Grp price) u g \<Longrightarrow> is_price u \<and> g = [u]"
  using sem_price by (auto simp: sem_Grp_iff)

lemma sem_item_pattern:
  assumes "sem item_pattern u g"
  shows "\<exists>g1 g2 g3 g4 rest. g = [g1, g2, g3, g4] \<and> u = g1 @ rest \<and> g1 \<noteq> [] \<and>
           g2 \<noteq> [] \<and> list_all is_digit g2 \<and> is_price g3 \<and> is_price g4"
proof -
  from assms obtain u0 h0 r0 k0 where
    0: "u = u0 @ r0" "g = h0 @ k0" "sem Bol u0 h0"
       "sem (Seqs [Grp (LPlus (Cls (\<lambda>c. c \<noteq> newline))), Plus (Cls is_space),
           Grp (Plus (Cls is_digit)), Plus (Cls is_space),
           Opt (Chr (CHR ''$'')), Grp price, Plus (Cls is_space), Opt (Chr (CHR ''$'')),
           Grp price, Eol]) r0 k0"
    unfolding item_pattern_def by (rule sem_SeqsE)
  from 0(4) obtain u1 h1 r1 k1 where
    1: "r0 = u1 @ r1" "k0 = h1 @ k1" "sem (Grp (LPlus (Cls (\<lambda>c. c \<noteq> newline)))) u1 h1"
       "sem (Seqs [Plus (Cls is_space), Grp (Plus (Cls is_digit)), Plus (Cls is_space),
           Opt (Chr (CHR ''$'')), Grp price, Plus (Cls is_space), Opt (Chr (CHR ''$'')),
           Grp price, Eol]) r1 k1"
    by (rule sem_SeqsE)
  from 1(4) obtain ua ha ra ka where
    a: "r1 = ua @ ra" "k1 = ha @ ka" "sem (Plus (Cls is_space)) ua ha"
       "sem (Seqs [Grp (Plus (Cls is_digit)), Plus (Cls is_space),
           Opt (Chr (CHR ''$'')), Grp price, Plus (Cls is_space), Opt (Chr (CHR ''$'')),
           Grp price, Eol]) ra ka"
    by (rule sem_SeqsE)
  from a(4) obtain u2 h2 r2 k2 where
    2: "ra = u2 @ r2" "ka = h2 @ k2" "sem (Grp (Plus (Cls is_digit))) u2 h2"
       "sem (Seqs [Plus (Cls is_space),
           Opt (Chr (CHR ''$'')), Grp price, Plus (Cls is_space), Opt (Chr (CHR ''$'')),
           Grp price, Eol]) r2 k2"
    by (rule sem_SeqsE)
  from 2(4) obtain ub hb rb kb where
    b: "r2 = ub @ rb" "k2 = hb @ kb" "sem (Plus (Cls is_space)) ub hb"
       "sem (Seqs [Opt (Chr (CHR ''$'')), Grp price, Plus (Cls is_space),
           Opt (Chr (CHR ''$'')), Grp price, Eol]) rb kb"
    by (rule sem_SeqsE)
  from b(4) obtain uc hc rc kc where
    c: "rb = uc @ rc" "kb = hc @ kc" "sem (Opt (Chr (CHR ''$''))) uc hc"
       "sem (Seqs [Grp price, Plus (Cls is_space), Opt (Chr (CHR ''$'')), Grp price, Eol]) rc kc"
    by (rule sem_SeqsE)
  from c(4) obtain u3 h3 r3 k3 where
    3: "rc = u3 @ r3" "kc = h3 @ k3" "sem (Grp price) u3 h3"
       "sem (Seqs [Plus (Cls is_space), Opt (Chr (CHR ''$'')), Grp price, Eol]) r3 k3"
    by (rule sem_SeqsE)
  from 3(4) obtain ud hd rd kd where
    d: "r3 = ud @ rd" "k3 = hd @ kd" "sem (Plus (Cls is_space)) ud hd"
       "sem (Seqs [Opt (Chr (CHR ''$'')), Grp price, Eol]) rd kd"
    by (rule sem_SeqsE)
  from d(4) obtain ue he re ke where
    e: "rd = ue @ re" "kd = he @ ke" "sem (Opt (Chr (CHR ''$''))) ue he"
       "sem (Seqs [Grp price, Eol]) re ke"
    by (rule sem_SeqsE)
  from e(4) obtain u4 h4 r4 k4 where
    4: "re = u4 @ r4" "ke = h4 @ k4" "sem (Grp price) u4 h4" "sem (Seqs [Eol]) r4 k4"
    by (rule sem_SeqsE)
  from 4(4) have k4: "k4 = []" by (auto simp: sem_Seq_iff sem_Eol_iff sem_Eps_iff)
  have h0: "u0 = []" "h0 = []" using 0(3) by (simp_all add: sem_Bol_iff)
  have g1: "h1 = [u1]" "u1 \<noteq> []" using 1(3) by (auto simp: sem_Grp_iff sem_LPlus_Cls)
  have ha: "ha = []" "hb = []" "hd = []" using a(3) b(3) d(3) by (simp_all add: sem_Plus_Cls)
  have hc: "hc = []" "he = []" using c(3) e(3) by (auto simp: sem_Opt sem_Chr)
  have g2: "h2 = [u2]" "u2 \<noteq> []" "list_all is_digit u2"
    using 2(3) by (auto simp: sem_Grp_iff sem_Plus_Cls)
  have g3: "h3 = [u3]" "is_price u3" using sem_Grp_price [OF 3(3)] by simp_all
  have g4: "h4 = [u4]" "is_price u4" using sem_Grp_price [OF 4(3)] by simp_all
  have "g = [u1, u2, u3, u4]"
    using 0(2) 1(2) a(2) 2(2) b(2) c(2) 3(2) d(2) e(2) 4(2) k4 h0 g1 ha hc g2 g3 g4 by simp
  moreover have "u = u1 @ r1" using 0(1) 1(1) h0 by simp
  ultimately show ?thesis using g1 g2 g3 g4 by blast
qed

lemma not_digit_point: "\<not> is_digit (CHR ''.'')"
  by (simp add: is_digit_def)

lemma takeWhile_all: "list_all P a \<Longrightarrow> \<not> P x \<Longrightarrow> takeWhile P (a @ x # r) = a"
  by (induction a) auto

lemma dropWhile_all_Cons: "list_all P a \<Longrightarrow> \<not> P x \<Longrightarrow> dropWhile P (a @ x # r) = x # r"
  by (induction a) auto

lemma py_float_price:
  assumes "is_price g"
  shows "py_float g = Inr (round_double (decimal_val g))"
proof -
  from assms obtain a b c where
    g: "g = a @ [CHR ''.'', b, c]" "a \<noteq> []" "list_all is_digit a" "is_digit b" "is_digit c"
    unfolding is_price_def by blast
  have t: "takeWhile is_digit g = a"
    using g(1,3) not_digit_point by (simp add: takeWhile_all)
  have d: "dropWhile is_digit g = [CHR ''.'', b, c]"
    using g(1,3) not_digit_point by (simp add: dropWhile_all_Cons)
  show ?thesis
    unfolding py_float_def decimal_val_def Let_def t d using g(2,4,5) by simp
qed

lemma py_int_digits:
  "g \<noteq> [] \<Longrightarrow> list_all is_digit g \<Longrightarrow> py_int g = Inr (int (digits_val g))"
  by (simp add: py_int_def)

lemma re_match_item:
  assumes "re_match item_pattern line = Some g"
  shows "\<exists>g1 g2 g3 g4 rest. g = [g1, g2, g3, g4] \<and> line = g1 @ rest \<and> g1 \<noteq> [] \<and>
           g2 \<noteq> [] \<and> list_all is_digit g2 \<and> is_price g3 \<and> is_price g4"
proof -
  from assms obtain t' where "first_match (length line) item_pattern line = Some (t', g)"
    by (auto simp: re_match_def)
  then have "(t', g) \<in> set (run (length line) item_pattern (line, []))"
    by (auto simp: first_match_def split: list.splits)
  from run_sound [OF this] obtain u where s: "sem item_pattern u g" "line = u @ t'" by auto
  from sem_item_pattern [OF s(1)] obtain g1 g2 g3 g4 rest where
    "g = [g1, g2, g3, g4]" "u = g1 @ rest" "g1 \<noteq> []" "g2 \<noteq> []" "list_all is_digit g2"
    "is_price g3" "is_price g4" by blast
  with s(2) show ?thesis by auto
qed

lemma parse_row_accepted:
  assumes "parse_row raw = Inr r"
  shows "accepted_row raw = (case r of None \<Rightarrow> [] | Some item \<Rightarrow> [item])"
proof (cases "re_match item_pattern (strip raw)")
  case None
  with assms show ?thesis
    by (auto simp: parse_row_def accepted_row_def Let_def split: if_splits)
next
  case (Some g)
  from re_match_item [OF Some] obtain g1 g2 g3 g4 rest where
    g: "g = [g1, g2, g3, g4]" "strip raw = g1 @ rest" "g1 \<noteq> []" "g2 \<noteq> []"
       "list_all is_digit g2" "is_price g3" "is_price g4" by blast
  have ne: "strip raw \<noteq> []" using g(2,3) by simp
  have m: "re_match item_pattern (strip raw) = Some [g1, g2, g3, g4]" using Some g(1) by simp
  have i: "py_int g2 = Inr (int (digits_val g2))" using g(4,5) by (rule py_int_digits)
  have f3: "py_float g3 = Inr (round_double (decimal_val g3))" using g(6) by (rule py_float_price)
  have f4: "py_float g4 = Inr (round_double (decimal_val g4))" using g(7) by (rule py_float_price)
  show ?thesis
  proof (cases "round_double (of_int (int (digits_val g2)))")
    case (Fin a)
    then have "int_times_float (int (digits_val g2)) (round_double (decimal_val g3)) =
                 Inr (fmul (round_double (of_int (int (digits_val g2))))
                        (round_double (decimal_val g3)))"
      by (simp add: int_times_float_def int_to_float_def)
    with assms show ?thesis
      unfolding parse_row_def accepted_row_def Let_def using ne m i f3 f4
      by (auto split: if_splits)
  next
    case PInf
    then have "int_times_float (int (digits_val g2)) (round_double (decimal_val g3)) =
                 Inl OverflowError"
      by (simp add: int_times_float_def int_to_float_def)
    with assms show ?thesis
      unfolding parse_row_def Let_def using ne m i f3 f4 by simp
  next
    case NInf
    then have "int_times_float (int (digits_val g2)) (round_double (decimal_val g3)) =
                 Inl OverflowError"
      by (simp add: int_times_float_def int_to_float_def)
    with assms show ?thesis
      unfolding parse_row_def Let_def using ne m i f3 f4 by simp
  next
    case NaN
    then have "int_times_float (int (digits_val g2)) (round_double (decimal_val g3)) =
                 Inl OverflowError"
      by (simp add: int_times_float_def int_to_float_def)
    with assms show ?thesis
      unfolding parse_row_def Let_def using ne m i f3 f4 by simp
  qed
qed

lemma rows_loop_accepted:
  "rows_loop rows acc = Inr its \<Longrightarrow> its = acc @ concat (map accepted_row rows)"
proof (induction rows arbitrary: acc)
  case Nil
  then show ?case by simp
next
  case (Cons raw rows)
  show ?case
  proof (cases "parse_row raw")
    case (Inl e)
    with Cons.prems show ?thesis by simp
  next
    case (Inr r)
    show ?thesis
    proof (cases r)
      case None
      with Inr Cons.prems have "rows_loop rows acc = Inr its" by simp
      from Cons.IH [OF this] parse_row_accepted [OF Inr] None show ?thesis by simp
    next
      case (Some item)
      with Inr Cons.prems have "rows_loop rows (acc @ [item]) = Inr its" by simp
      from Cons.IH [OF this] parse_row_accepted [OF Inr] Some show ?thesis by simp
    qed
  qed
qed

lemma extract_rows:
  "extract_line_items text = Inr its \<Longrightarrow> its = concat (map accepted_row (table_rows text))"
  unfolding extract_line_items_def using rows_loop_accepted by fastforce

lemma decimal_val_nonneg: "0 \<le> decimal_val g"
  by (simp add: decimal_val_def Let_def)

lemma accepted_row_item:
  assumes "item \<in> set (accepted_row raw)"
  shows "description item \<noteq> [] \<and> strip (description item) \<noteq> [] \<and> 0 \<le> quantity item \<and>
         fle (Fin 0) (unit_price item) \<and> fle (Fin 0) (item_total item)"
proof (cases "re_match item_pattern (strip raw)")
  case None
  with assms show ?thesis by (simp add: accepted_row_def)
next
  case (Some g)
  from re_match_item [OF Some] obtain g1 g2 g3 g4 rest where
    g: "g = [g1, g2, g3, g4]" "strip raw = g1 @ rest" "g1 \<noteq> []" by blast
  have "strip raw \<noteq> []" using g(2,3) by simp
  then have "\<not> is_space (hd (strip raw))" by (rule strip_hd)
  then have "\<not> is_space (hd g1)" using g(2,3) by simp
  with g(3) have d: "strip g1 \<noteq> []" by (rule strip_nonempty)
  then have "\<not> is_space (hd (strip g1))" by (rule strip_hd)
  with d have d2: "strip (strip g1) \<noteq> []" by (rule strip_nonempty)
  from assms Some g(1) have
    "item = \<lparr>description = strip g1, quantity = int (digits_val g2),
             unit_price = round_double (decimal_val g3),
             item_total = round_double (decimal_val g4)\<rparr>"
    by (auto simp: accepted_row_def Let_def split: if_splits)
  then show ?thesis
    using d d2 round_double_nonneg [OF decimal_val_nonneg] by simp
qed

section \<open>The examples, evaluated\<close>

lemma floor_rat_numeral: "\<lfloor>numeral a / numeral b :: rat\<rfloor> = numeral a div numeral b"
  using floor_divide_of_int_eq [of "numeral a" "numeral b", where ?'a = rat] by simp

lemma ceiling_rat_numeral:
  "\<lceil>numeral a / numeral b :: rat\<rceil> = - (- numeral a div numeral b)"
proof -
  have "\<lceil>numeral a / numeral b :: rat\<rceil> =
          - \<lfloor>of_int (- numeral a) / of_int (numeral b) :: rat\<rfloor>"
    by (simp add: ceiling_def)
  also have "\<dots> = - (- numeral a div numeral b)"
    by (simp only: floor_divide_of_int_eq)
  finally show ?thesis .
qed

lemma ilog2_values:
  "ilog2 1 = 0" "ilog2 2 = 1" "ilog2 3 = 1" "ilog2 (3 / 2) = 0" "ilog2 5 = 2"
  "ilog2 10 = 3" "ilog2 30 = 4" "ilog2 35 = 5" "ilog2 (1 / 100) = - 7"
  "ilog2 (5764607523034235 / 576460752303423488) = - 7"
  by (simp_all add: ilog2_def floor_rat_numeral ceiling_rat_numeral bit_length.simps)

lemmas round_eval = round_double_def Let_def ilog2_values pow2_def round_half_even_def
  floor_rat_numeral

lemma round_double_values:
  "round_double 0 = Fin 0" "round_double 1 = Fin 1" "round_double 2 = Fin 2"
  "round_double 3 = Fin 3" "round_double (3 / 2) = Fin (3 / 2)" "round_double 10 = Fin 10"
  "round_double 30 = Fin 30" "round_double 35 = Fin 35" "round_double (- 5) = Fin (- 5)"
  "round_double (1 / 100) = Fin (5764607523034235 / 576460752303423488)"
  "round_double (- (5764607523034235 / 576460752303423488)) =
     Fin (- (5764607523034235 / 576460752303423488))"
  by (simp_all add: round_eval)

lemma lit_0_01_value: "lit_0_01 = Fin (5764607523034235 / 576460752303423488)"
  by (simp add: lit_0_01_def round_double_values)

lemma decimal_values:
  "decimal_val ''10.00'' = 10" "decimal_val ''35.00'' = 35" "decimal_val ''1.50'' = 3 / 2"
  "decimal_val ''3.00'' = 3" "decimal_val ''0.00'' = 0" "decimal_val ''0.01'' = 1 / 100"
  "digits_val ''1'' = 1" "digits_val ''2'' = 2" "digits_val ''3'' = 3"
  by (simp_all add: decimal_val_def digits_val_def is_digit_def)

lemma strip_examples:
  "strip ''Widget 3 $10.00 $35.00'' = ''Widget 3 $10.00 $35.00''"
  "strip ''Gadget 2 $1.50 $3.00'' = ''Gadget 2 $1.50 $3.00''"
  "strip ''Widget 1 $0.00 $0.01'' = ''Widget 1 $0.00 $0.01''"
  "strip ''Widget'' = ''Widget''" "strip ''Gadget'' = ''Gadget''"
  by (simp_all add: strip_def is_space_def)

lemma match_examples:
  "re_match item_pattern ''Widget 3 $10.00 $35.00'' = Some [''Widget'', ''3'', ''10.00'', ''35.00'']"
  "re_match item_pattern ''Gadget 2 $1.50 $3.00'' = Some [''Gadget'', ''2'', ''1.50'', ''3.00'']"
  "re_match item_pattern ''Widget 1 $0.00 $0.01'' = Some [''Widget'', ''1'', ''0.00'', ''0.01'']"
  by code_simp+

lemma parse_values:
  "py_int ''1'' = Inr 1" "py_int ''2'' = Inr 2" "py_int ''3'' = Inr 3"
  "py_float ''10.00'' = Inr (Fin 10)" "py_float ''35.00'' = Inr (Fin 35)"
  "py_float ''1.50'' = Inr (Fin (3 / 2))" "py_float ''3.00'' = Inr (Fin 3)"
  "py_float ''0.00'' = Inr (Fin 0)"
  "py_float ''0.01'' = Inr (Fin (5764607523034235 / 576460752303423488))"
  by (simp_all add: py_int_def py_float_def digits_val_def is_digit_def round_double_values)

lemma times_values:
  "int_times_float 3 (Fin 10) = Inr (Fin 30)"
  "int_times_float 2 (Fin (3 / 2)) = Inr (Fin 3)"
  "int_times_float 1 (Fin 0) = Inr (Fin 0)"
  by (simp_all add: int_times_float_def int_to_float_def round_double_values)

lemma parse_row_examples:
  "parse_row ''Widget 3 $10.00 $35.00'' = Inr None"
  "parse_row ''Gadget 2 $1.50 $3.00'' = Inr (Some gadget)"
  "parse_row ''Widget 1 $0.00 $0.01'' = Inr None"
  by (simp_all add: parse_row_def strip_examples match_examples parse_values times_values
      fsub_def round_double_values lit_0_01_value gadget_def)

lemma table_rows_examples:
  "table_rows (table_text [''Widget 3 $10.00 $35.00'', ''Gadget 2 $1.50 $3.00'']) =
     [''Widget 3 $10.00 $35.00'', ''Gadget 2 $1.50 $3.00'']"
  "table_rows (table_text [''Widget 1 $0.00 $0.01'']) = [''Widget 1 $0.00 $0.01'']"
  by code_simp+

lemma example_rows:
  "extract_line_items (table_text [''Widget 3 $10.00 $35.00'', ''Gadget 2 $1.50 $3.00'']) =
     Inr [gadget]"
  by (simp add: extract_line_items_def table_rows_examples parse_row_examples)

lemma example_one_cent:
  "extract_line_items (table_text [''Widget 1 $0.00 $0.01'']) = Inr []"
  by (simp add: extract_line_items_def table_rows_examples parse_row_examples)

lemma one_cent_difference:
  "fabs (fsub (Fin 0) (Fin (5764607523034235 / 576460752303423488))) = lit_0_01"
  by (simp add: fsub_def round_double_values lit_0_01_value)

lemma example_email:
  "extract_receipt_fields_v3 ''inquire@a.bc x@y.zz'' = Inr (email_receipt ''x@y.zz'')"
  by code_simp

section \<open>The claims on the field extractor\<close>

text \<open>
  C1, as the specification states it (a matching row is accepted if and only if
  \<open>|quantity * unit_price - total| <= 0.01\<close>), fails: the row
  \<open>Widget 1 $0.00 $0.01\<close> lies in the table and matches the row shape, the difference is
  exactly the double \<open>0.01\<close>, which is \<open><= 0.01\<close>, and the row is discarded.
\<close>

theorem one_cent_row_rejected:
  "table_rows (table_text [''Widget 1 $0.00 $0.01'']) = [''Widget 1 $0.00 $0.01''] \<and>
   re_match item_pattern (strip ''Widget 1 $0.00 $0.01'') =
     Some [''Widget'', ''1'', ''0.00'', ''0.01''] \<and>
   py_int ''1'' = Inr 1 \<and> py_float ''0.00'' = Inr (Fin 0) \<and> py_float ''0.01'' = Inr lit_0_01 \<and>
   int_times_float 1 (Fin 0) = Inr (Fin 0) \<and>
   fle (fabs (fsub (Fin 0) lit_0_01)) lit_0_01 \<and>
   extract_line_items (table_text [''Widget 1 $0.00 $0.01'']) = Inr []"
  using one_cent_difference
  by (simp add: table_rows_examples strip_examples match_examples parse_values times_values
      example_one_cent lit_0_01_value fle_def)

text \<open>
  C1, amended.  Whenever \<open>extract_line_items\<close> returns, its items are, in the order of the
  lines, the items of the lines inside the table boundaries that match the row shape and
  have \<open>|quantity * unit_price - total| < 0.01\<close> (strictly, in double precision); every
  other line gives nothing.
\<close>

theorem line_items_accepted:
  assumes "extract_line_items text = Inr its"
  shows "its = concat (map accepted_row (table_rows text))"
  using assms by (rule extract_rows)

theorem line_items_accepted_witness:
  "extract_line_items (table_text [''Widget 3 $10.00 $35.00'', ''Gadget 2 $1.50 $3.00'']) =
     Inr [gadget] \<and>
   concat (map accepted_row [''Widget 3 $10.00 $35.00'', ''Gadget 2 $1.50 $3.00'']) = [gadget]"
proof -
  have "[gadget] = concat (map accepted_row [''Widget 3 $10.00 $35.00'', ''Gadget 2 $1.50 $3.00''])"
    using line_items_accepted [OF example_rows] by (simp only: table_rows_examples)
  then show ?thesis using example_rows by simp
qed

text \<open>
  C10.  Every item that \<open>extract_line_items\<close> accepts has a description that is not
  empty, also after trimming, a quantity of at least 0, and a unit price and a total of at
  least 0.
\<close>

theorem accepted_items_well_formed:
  assumes "extract_line_items text = Inr its" and "item \<in> set its"
  shows "description item \<noteq> [] \<and> strip (description item) \<noteq> [] \<and> 0 \<le> quantity item \<and>
         fle (Fin 0) (unit_price item) \<and> fle (Fin 0) (item_total item)"
proof -
  from assms obtain raw where "item \<in> set (accepted_row raw)"
    using extract_rows by fastforce
  then show ?thesis by (rule accepted_row_item)
qed

theorem accepted_items_well_formed_witness:
  "gadget \<in> set [gadget] \<and> description gadget \<noteq> [] \<and> strip (description gadget) \<noteq> [] \<and>
   0 \<le> quantity gadget \<and> fle (Fin 0) (unit_price gadget) \<and> fle (Fin 0) (item_total gadget)"
proof -
  have "gadget \<in> set [gadget]" by simp
  from accepted_items_well_formed [OF example_rows this] show ?thesis by simp
qed

text \<open>
  C9.  In a record that \<open>extract_receipt_fields_v3\<close> returns, an email that is set
  contains an \<open>@\<close> and a \<open>.\<close>, and the validator emits no email warning for the
  record.
\<close>

theorem extracted_email_well_formed:
  assumes "extract_receipt_fields_v3 text = Inr data"
  shows "(\<forall>e. email (bill_to data) = Some e \<longrightarrow> CHR ''@'' \<in> set e \<and> CHR ''.'' \<in> set e) \<and>
         (\<forall>e. EmailInvalid e \<notin> set (validate_extraction data))"
proof -
  have shape: "CHR ''@'' \<in> set e \<and> CHR ''.'' \<in> set e" if "email (bill_to data) = Some e" for e
    using that extract_email [OF assms] find_email_shape by simp
  have "check_email data = []"
  proof (cases "email (bill_to data)")
    case None
    then show ?thesis by (simp add: check_email_def)
  next
    case (Some e)
    with shape [OF Some] show ?thesis by (simp add: check_email_def)
  qed
  moreover have "EmailInvalid e \<notin> set (check_items_sum data)" for e
    using check_items_sum_cases [of data] by auto
  moreover have "EmailInvalid e \<notin> set (check_date data)" for e
    using check_date_cases [of data] by auto
  ultimately have "EmailInvalid e \<notin> set (validate_extraction data)" for e
    by (simp add: validate_extraction_def)
  with shape show ?thesis by blast
qed

theorem extracted_email_well_formed_witness:
  "email (bill_to (email_receipt ''x@y.zz'')) = Some ''x@y.zz'' \<and>
   CHR ''@'' \<in> set ''x@y.zz'' \<and> CHR ''.'' \<in> set ''x@y.zz'' \<and>
   EmailInvalid ''x@y.zz'' \<notin> set (validate_extraction (email_receipt ''x@y.zz''))"
proof -
  have a: "email (bill_to (email_receipt ''x@y.zz'')) = Some ''x@y.zz''"
    by (simp add: email_receipt_def)
  from extracted_email_well_formed [OF example_email] a show ?thesis by blast
qed

text \<open>
  C2 fails on the program: \<open>extract_receipt_fields_v3\<close> raises \<open>ValueError\<close> on the
  text \<open>Total Amount: ,\<close>.  The pattern of the total matches the comma alone, the
  commas are removed, and \<open>float('')\<close> raises.
\<close>

theorem extract_raises_value_error:
  "extract_receipt_fields_v3 ''Total Amount: ,'' = Inl ValueError"
  by code_simp

end
